theory Spec2Isabelle
  imports Main "HOL-Library.Word"
begin

unbundle bit_operations_syntax

section \<open>Data model\<close>

type_synonym u8 = "8 word"
type_synonym u64 = "64 word"

text \<open>
  The cipher context \<^verbatim>\<open>kalyna_t\<close>.  Its declaration (kalyna.h) is not among the
  sources; the fields are the ones \<^verbatim>\<open>kalyna_optimized.c\<close> reads and writes:
  \<^verbatim>\<open>ctx->nb\<close>, \<^verbatim>\<open>ctx->nk\<close>, \<^verbatim>\<open>ctx->nr\<close> (all \<^verbatim>\<open>size_t\<close>), the state buffer
  \<^verbatim>\<open>uint64_t* state\<close> and the round-key rows \<^verbatim>\<open>uint64_t** round_keys\<close>.  The
  \<^verbatim>\<open>size_t\<close> fields are natural numbers: \<^verbatim>\<open>KalynaInit\<close> only ever stores
  2, 4, 8 and 10, 14, 18 there, and no arithmetic on them comes near
  \<^verbatim>\<open>SIZE_MAX\<close>.
\<close>

record kalyna_t =
  nb :: nat
  nk :: nat
  nr :: nat
  state :: "u64 list"
  round_keys :: "u64 list list"

text \<open>
  The constant tables of \<^verbatim>\<open>tables.h\<close> (not among the sources) are a parameter of
  the model: \<^verbatim>\<open>uint8_t sboxes_enc[4][256]\<close>, \<^verbatim>\<open>sboxes_dec[4][256]\<close>,
  \<^verbatim>\<open>mds_matrix[8][8]\<close> and \<^verbatim>\<open>mds_inv_matrix[8][8]\<close>, each indexed as in C.
\<close>

record tables =
  sboxes_enc :: "nat \<Rightarrow> u8 \<Rightarrow> u8"
  sboxes_dec :: "nat \<Rightarrow> u8 \<Rightarrow> u8"
  mds_matrix :: "nat \<Rightarrow> nat \<Rightarrow> u8"
  mds_inv_matrix :: "nat \<Rightarrow> nat \<Rightarrow> u8"

subsection \<open>Constants of transformations.h\<close>

definition kBITS_IN_WORD :: nat where "kBITS_IN_WORD = 64"

definition kNB_128 :: nat where "kNB_128 = 2"
definition kNB_256 :: nat where "kNB_256 = 4"
definition kNB_512 :: nat where "kNB_512 = 8"

definition kNK_128 :: nat where "kNK_128 = 2"
definition kNK_256 :: nat where "kNK_256 = 4"
definition kNK_512 :: nat where "kNK_512 = 8"

definition kBLOCK_128 :: nat where "kBLOCK_128 = kNB_128 * kBITS_IN_WORD"
definition kBLOCK_256 :: nat where "kBLOCK_256 = kNB_256 * kBITS_IN_WORD"
definition kBLOCK_512 :: nat where "kBLOCK_512 = kNB_512 * kBITS_IN_WORD"

definition kKEY_128 :: nat where "kKEY_128 = kNK_128 * kBITS_IN_WORD"
definition kKEY_256 :: nat where "kKEY_256 = kNK_256 * kBITS_IN_WORD"
definition kKEY_512 :: nat where "kKEY_512 = kNK_512 * kBITS_IN_WORD"

definition kNR_128 :: nat where "kNR_128 = 10"
definition kNR_256 :: nat where "kNR_256 = 14"
definition kNR_512 :: nat where "kNR_512 = 18"

text \<open>\<^verbatim>\<open>#define kREDUCTION_POLYNOMIAL 0x011d\<close>: an \<^verbatim>\<open>int\<close> constant.\<close>

definition kREDUCTION_POLYNOMIAL :: "32 word" where
  "kREDUCTION_POLYNOMIAL = 0x011d"

definition MAX_STATE_BYTES :: nat where "MAX_STATE_BYTES = 64"

section \<open>Loops and block copies\<close>

text \<open>\<^verbatim>\<open>for (size_t i = start; i < n; ++i) body\<close>, for a body that leaves \<open>n\<close> alone.\<close>

function for_loop :: "nat \<Rightarrow> nat \<Rightarrow> (nat \<Rightarrow> 's \<Rightarrow> 's) \<Rightarrow> 's \<Rightarrow> 's" where
  "for_loop i n body s = (if i < n then for_loop (Suc i) n body (body i s) else s)"
  by pat_completeness auto
termination
  by (relation "measure (\<lambda>(i, n, body, s). n - i)") auto

declare for_loop.simps [simp del]

text \<open>\<^verbatim>\<open>for (int i = start; i >= 0; --i) body\<close>.\<close>

fun for_down_to_0 :: "nat \<Rightarrow> (nat \<Rightarrow> 's \<Rightarrow> 's) \<Rightarrow> 's \<Rightarrow> 's" where
  "for_down_to_0 0 body s = body 0 s"
| "for_down_to_0 (Suc i) body s = for_down_to_0 i body (body (Suc i) s)"

text \<open>\<^verbatim>\<open>for (size_t i = start; i > 0; --i) body\<close>.\<close>

fun for_down_above_0 :: "nat \<Rightarrow> (nat \<Rightarrow> 's \<Rightarrow> 's) \<Rightarrow> 's \<Rightarrow> 's" where
  "for_down_above_0 0 body s = s"
| "for_down_above_0 (Suc i) body s = for_down_above_0 i body (body (Suc i) s)"

text \<open>
  \<^verbatim>\<open>memcpy(dst + off, src, n)\<close> and \<^verbatim>\<open>memmove\<close>, counted in array elements: the
  \<open>n\<close> elements from \<open>off\<close> on are replaced by the first \<open>n\<close> of \<open>src\<close>.
\<close>

definition memcpy :: "'a list \<Rightarrow> nat \<Rightarrow> 'a list \<Rightarrow> nat \<Rightarrow> 'a list" where
  "memcpy dst off src n = take off dst @ take n src @ drop (off + n) dst"

section \<open>Finite-field arithmetic\<close>

text \<open>
  \<^verbatim>\<open>MultiplyGF\<close>: the loop state is \<open>(x, y, r)\<close>.  \<^verbatim>\<open>x ^= kREDUCTION_POLYNOMIAL\<close>
  is computed in \<^verbatim>\<open>int\<close> and stored back into a \<^verbatim>\<open>uint8_t\<close>.
\<close>

definition MultiplyGF_body :: "u8 \<times> u8 \<times> u8 \<Rightarrow> u8 \<times> u8 \<times> u8" where
  "MultiplyGF_body = (\<lambda>(x, y, r).
     let r1 = (if y AND 0x1 = 1 then r XOR x else r);
         hbit = x AND 0x80;
         x1 = push_bit 1 x;
         x2 = (if hbit = 0x80
               then ucast ((ucast x1 :: 32 word) XOR kREDUCTION_POLYNOMIAL) else x1);
         y1 = drop_bit 1 y
     in (x2, y1, r1))"

definition MultiplyGF :: "u8 \<Rightarrow> u8 \<Rightarrow> u8" where
  "MultiplyGF x y = snd (snd (for_loop 0 8 (\<lambda>i. MultiplyGF_body) (x, y, 0)))"

section \<open>Context lifecycle\<close>

text \<open>
  The configuration part of \<^verbatim>\<open>KalynaInit\<close>: the nested comparisons of
  \<^verbatim>\<open>block_size\<close> and \<^verbatim>\<open>key_size\<close>, giving \<open>(nb, nk, nr)\<close>, or nothing on the
  branches that print an error, free the context and return \<^verbatim>\<open>NULL\<close>.
\<close>

definition KalynaInit_config :: "nat \<Rightarrow> nat \<Rightarrow> (nat \<times> nat \<times> nat) option" where
  "KalynaInit_config block_size key_size =
     (if block_size = kBLOCK_128 then
        (if key_size = kKEY_128 then
           Some (kBLOCK_128 div kBITS_IN_WORD, kKEY_128 div kBITS_IN_WORD, kNR_128)
         else if key_size = kKEY_256 then
           Some (kBLOCK_128 div kBITS_IN_WORD, kKEY_256 div kBITS_IN_WORD, kNR_256)
         else None)
      else if block_size = 256 then
        (if key_size = kKEY_256 then
           Some (kBLOCK_256 div kBITS_IN_WORD, kKEY_256 div kBITS_IN_WORD, kNR_256)
         else if key_size = kKEY_512 then
           Some (kBLOCK_256 div kBITS_IN_WORD, kKEY_512 div kBITS_IN_WORD, kNR_512)
         else None)
      else if block_size = kBLOCK_512 then
        (if key_size = kKEY_512 then
           Some (kBLOCK_512 div kBITS_IN_WORD, kKEY_512 div kBITS_IN_WORD, kNR_512)
         else None)
      else None)"

text \<open>
  \<^verbatim>\<open>KalynaInit\<close>.  The allocator is a parameter: \<open>alloc_ok k\<close> tells whether the
  \<open>k\<close>-th allocation of the call succeeds (0: the context, 1: the state, 2: the
  array of rows, \<open>3 + i\<close>: row \<open>i\<close>).  \<open>None\<close> is the \<^verbatim>\<open>NULL\<close> result; \<^verbatim>\<open>calloc\<close>
  zeroes the buffers.
\<close>

definition KalynaInit :: "(nat \<Rightarrow> bool) \<Rightarrow> nat \<Rightarrow> nat \<Rightarrow> kalyna_t option" where
  "KalynaInit alloc_ok block_size key_size =
     (if \<not> alloc_ok 0 then None
      else case KalynaInit_config block_size key_size of
        None \<Rightarrow> None
      | Some (b, k, r) \<Rightarrow>
          if \<not> alloc_ok 1 then None
          else if \<not> alloc_ok 2 then None
          else if \<not> list_all (\<lambda>i. alloc_ok (3 + i)) [0..<r + 1] then None
          else Some \<lparr>nb = b, nk = k, nr = r, state = replicate b 0,
                      round_keys = replicate (r + 1) (replicate b 0)\<rparr>)"

section \<open>Codec\<close>

text \<open>
  The host's byte order is a parameter \<open>be\<close> (true on a big-endian host).
  \<open>host_bytes be n w\<close> are the \<open>n\<close> bytes of an \<open>n\<close>-byte unsigned integer as they
  lie in memory, and \<open>host_word\<close> reads a \<^verbatim>\<open>uint64_t\<close> back from 8 bytes of memory.
\<close>

definition host_bytes :: "bool \<Rightarrow> nat \<Rightarrow> 'a::len word \<Rightarrow> u8 list" where
  "host_bytes be n w =
     (let le = map (\<lambda>k. ucast (drop_bit (8 * k) w)) [0..<n] in if be then rev le else le)"

definition le_word :: "u8 list \<Rightarrow> u64" where
  "le_word bs = foldr (\<lambda>b acc. ucast b OR push_bit 8 acc) bs 0"

definition host_word :: "bool \<Rightarrow> u8 list \<Rightarrow> u64" where
  "host_word be bs = le_word (if be then rev bs else bs)"

text \<open>\<^verbatim>\<open>IsBigEndian\<close>: the first byte in memory of the \<^verbatim>\<open>unsigned int\<close> 1 is 0.\<close>

definition IsBigEndian :: "bool \<Rightarrow> bool" where
  "IsBigEndian be = (hd (host_bytes be 4 (1 :: 32 word)) = 0)"

text \<open>\<^verbatim>\<open>ReverseWord\<close>: \<^verbatim>\<open>dst[i] = src[sizeof(uint64_t) - 1 - i]\<close> on the bytes in memory.\<close>

definition ReverseWord :: "bool \<Rightarrow> u64 \<Rightarrow> u64" where
  "ReverseWord be word =
     (let src = host_bytes be 8 word;
          dst = for_loop 0 8 (\<lambda>i dst. dst[i := src ! (8 - 1 - i)]) (host_bytes be 8 (0 :: u64))
      in host_word be dst)"

text \<open>
  \<^verbatim>\<open>WordsToBytes_Inline(nb, words, bytes)\<close>; the result is the buffer \<^verbatim>\<open>bytes\<close>
  after the call.
\<close>

definition WordsToBytes_Inline :: "bool \<Rightarrow> nat \<Rightarrow> u64 list \<Rightarrow> u8 list \<Rightarrow> u8 list" where
  "WordsToBytes_Inline be n words bytes =
     (if IsBigEndian be then
        for_loop 0 n
          (\<lambda>i bytes. let w = ReverseWord be (words ! i) in memcpy bytes (i * 8) (host_bytes be 8 w) 8)
          bytes
      else memcpy bytes 0 (concat (map (host_bytes be 8) words)) (n * 8))"

text \<open>
  \<^verbatim>\<open>BytesToWords_Inline(nb, bytes, words)\<close>; the result is the array \<^verbatim>\<open>words\<close>
  after the call.
\<close>

definition BytesToWords_Inline :: "bool \<Rightarrow> nat \<Rightarrow> u8 list \<Rightarrow> u64 list \<Rightarrow> u64 list" where
  "BytesToWords_Inline be n bytes words =
     (let words1 = memcpy words 0 (map (\<lambda>i. host_word be (take 8 (drop (8 * i) bytes))) [0..<n]) n
      in if IsBigEndian be then for_loop 0 n (\<lambda>i ws. ws[i := ReverseWord be (ws ! i)]) words1
         else words1)"

text \<open>
  A stack buffer \<^verbatim>\<open>uint8_t buf[MAX_STATE_BYTES]\<close>.  C leaves it uninitialised; the
  model fills it with zeroes.  For \<open>nb \<le> 8\<close> every byte that is read later is
  written first.
\<close>

definition stack_bytes :: "u8 list" where
  "stack_bytes = replicate MAX_STATE_BYTES 0"

text \<open>A stack array \<^verbatim>\<open>uint64_t a[8]\<close>, likewise.\<close>

definition stack_words :: "u64 list" where
  "stack_words = replicate 8 0"

section \<open>Substitution layer\<close>

text \<open>The right-hand side of the assignment in \<^verbatim>\<open>SubBytes\<close> and \<^verbatim>\<open>InvSubBytes\<close>.\<close>

definition sbox_word :: "(nat \<Rightarrow> u8 \<Rightarrow> u8) \<Rightarrow> u64 \<Rightarrow> u64" where
  "sbox_word sboxes s =
     ucast (sboxes 0 (ucast (s AND 0x00000000000000FF))) OR
     push_bit 8 (ucast (sboxes 1 (ucast (drop_bit 8 (s AND 0x000000000000FF00))))) OR
     push_bit 16 (ucast (sboxes 2 (ucast (drop_bit 16 (s AND 0x0000000000FF0000))))) OR
     push_bit 24 (ucast (sboxes 3 (ucast (drop_bit 24 (s AND 0x00000000FF000000))))) OR
     push_bit 32 (ucast (sboxes 0 (ucast (drop_bit 32 (s AND 0x000000FF00000000))))) OR
     push_bit 40 (ucast (sboxes 1 (ucast (drop_bit 40 (s AND 0x0000FF0000000000))))) OR
     push_bit 48 (ucast (sboxes 2 (ucast (drop_bit 48 (s AND 0x00FF000000000000))))) OR
     push_bit 56 (ucast (sboxes 3 (ucast (drop_bit 56 (s AND 0xFF00000000000000)))))"

definition SubBytes :: "tables \<Rightarrow> kalyna_t \<Rightarrow> kalyna_t" where
  "SubBytes T ctx =
     ctx\<lparr>state := for_loop 0 (nb ctx) (\<lambda>i s. s[i := sbox_word (sboxes_enc T) (s ! i)]) (state ctx)\<rparr>"

definition InvSubBytes :: "tables \<Rightarrow> kalyna_t \<Rightarrow> kalyna_t" where
  "InvSubBytes T ctx =
     ctx\<lparr>state := for_loop 0 (nb ctx) (\<lambda>i s. s[i := sbox_word (sboxes_dec T) (s ! i)]) (state ctx)\<rparr>"

section \<open>Permutation layer\<close>

text \<open>
  The loop over the rows carries \<open>(shift, nstate)\<close>.  \<^verbatim>\<open>8 / ctx->nb\<close> and the two
  \<^verbatim>\<open>%\<close> are C's unsigned division; they are defined for the \<open>nb\<close> of every context
  \<^verbatim>\<open>KalynaInit\<close> returns (2, 4 or 8).
\<close>

definition ShiftRows :: "bool \<Rightarrow> kalyna_t \<Rightarrow> kalyna_t" where
  "ShiftRows be ctx =
     (let state0 = WordsToBytes_Inline be (nb ctx) (state ctx) stack_bytes;
          (shift, nstate) =
            for_loop 0 8
              (\<lambda>row (shift, nstate).
                 let shift = (if row mod (8 div nb ctx) = 0 \<and> row > 0 then shift + 1 else shift)
                 in (shift,
                     for_loop 0 (nb ctx)
                       (\<lambda>col nstate.
                          nstate[row + (col + shift) mod nb ctx * 8 := state0 ! (row + col * 8)])
                       nstate))
              (0, stack_bytes)
      in ctx\<lparr>state := BytesToWords_Inline be (nb ctx) nstate (state ctx)\<rparr>)"

definition InvShiftRows :: "bool \<Rightarrow> kalyna_t \<Rightarrow> kalyna_t" where
  "InvShiftRows be ctx =
     (let state0 = WordsToBytes_Inline be (nb ctx) (state ctx) stack_bytes;
          (shift, nstate) =
            for_loop 0 8
              (\<lambda>row (shift, nstate).
                 let shift = (if row mod (8 div nb ctx) = 0 \<and> row > 0 then shift + 1 else shift)
                 in (shift,
                     for_loop 0 (nb ctx)
                       (\<lambda>col nstate.
                          nstate[row + col * 8 := state0 ! (row + (col + shift) mod nb ctx * 8)])
                       nstate))
              (0, stack_bytes)
      in ctx\<lparr>state := BytesToWords_Inline be (nb ctx) nstate (state ctx)\<rparr>)"

section \<open>Diffusion layer\<close>

text \<open>The body of the loop over the columns in \<^verbatim>\<open>MatrixMultiply\<close>: the new word of column \<open>col\<close>.\<close>

definition MatrixMultiply_column :: "(nat \<Rightarrow> nat \<Rightarrow> u8) \<Rightarrow> u8 list \<Rightarrow> nat \<Rightarrow> u64" where
  "MatrixMultiply_column matrix state0 col =
     for_down_to_0 7
       (\<lambda>row result.
          let product =
                for_down_to_0 7
                  (\<lambda>b product. product XOR MultiplyGF (state0 ! (b + col * 8)) (matrix row b)) 0
          in result OR push_bit (row * 8) (ucast product))
       0"

definition MatrixMultiply :: "bool \<Rightarrow> (nat \<Rightarrow> nat \<Rightarrow> u8) \<Rightarrow> kalyna_t \<Rightarrow> kalyna_t" where
  "MatrixMultiply be matrix ctx =
     (let state0 = WordsToBytes_Inline be (nb ctx) (state ctx) stack_bytes
      in ctx\<lparr>state :=
             for_loop 0 (nb ctx) (\<lambda>col s. s[col := MatrixMultiply_column matrix state0 col])
               (state ctx)\<rparr>)"

definition MixColumns :: "tables \<Rightarrow> bool \<Rightarrow> kalyna_t \<Rightarrow> kalyna_t" where
  "MixColumns T be ctx = MatrixMultiply be (mds_matrix T) ctx"

definition InvMixColumns :: "tables \<Rightarrow> bool \<Rightarrow> kalyna_t \<Rightarrow> kalyna_t" where
  "InvMixColumns T be ctx = MatrixMultiply be (mds_inv_matrix T) ctx"

section \<open>Round function and round-key mixing\<close>

definition EncipherRound :: "tables \<Rightarrow> bool \<Rightarrow> kalyna_t \<Rightarrow> kalyna_t" where
  "EncipherRound T be ctx = MixColumns T be (ShiftRows be (SubBytes T ctx))"

definition DecipherRound :: "tables \<Rightarrow> bool \<Rightarrow> kalyna_t \<Rightarrow> kalyna_t" where
  "DecipherRound T be ctx = InvSubBytes T (InvShiftRows be (InvMixColumns T be ctx))"

definition AddRoundKey :: "nat \<Rightarrow> kalyna_t \<Rightarrow> kalyna_t" where
  "AddRoundKey round ctx =
     ctx\<lparr>state := for_loop 0 (nb ctx) (\<lambda>i s. s[i := s ! i + round_keys ctx ! round ! i]) (state ctx)\<rparr>"

definition SubRoundKey :: "nat \<Rightarrow> kalyna_t \<Rightarrow> kalyna_t" where
  "SubRoundKey round ctx =
     ctx\<lparr>state := for_loop 0 (nb ctx) (\<lambda>i s. s[i := s ! i - round_keys ctx ! round ! i]) (state ctx)\<rparr>"

definition AddRoundKeyExpand :: "u64 list \<Rightarrow> kalyna_t \<Rightarrow> kalyna_t" where
  "AddRoundKeyExpand val ctx =
     ctx\<lparr>state := for_loop 0 (nb ctx) (\<lambda>i s. s[i := s ! i + val ! i]) (state ctx)\<rparr>"

definition XorRoundKey :: "nat \<Rightarrow> kalyna_t \<Rightarrow> kalyna_t" where
  "XorRoundKey round ctx =
     ctx\<lparr>state := for_loop 0 (nb ctx) (\<lambda>i s. s[i := s ! i XOR round_keys ctx ! round ! i]) (state ctx)\<rparr>"

definition XorRoundKeyExpand :: "u64 list \<Rightarrow> kalyna_t \<Rightarrow> kalyna_t" where
  "XorRoundKeyExpand val ctx =
     ctx\<lparr>state := for_loop 0 (nb ctx) (\<lambda>i s. s[i := s ! i XOR val ! i]) (state ctx)\<rparr>"

section \<open>Key schedule\<close>

definition Rotate :: "nat \<Rightarrow> u64 list \<Rightarrow> u64 list" where
  "Rotate state_size state_value =
     (let temp = state_value ! 0;
          v = for_loop 1 state_size (\<lambda>i v. v[i - 1 := v ! i]) state_value
      in v[state_size - 1 := temp])"

definition ShiftLeft :: "nat \<Rightarrow> u64 list \<Rightarrow> u64 list" where
  "ShiftLeft state_size state_value =
     for_loop 0 state_size (\<lambda>i v. v[i := push_bit 1 (v ! i)]) state_value"

text \<open>
  \<^verbatim>\<open>RotateLeft\<close>.  \<^verbatim>\<open>bytes_num - rotate_bytes\<close> does not wrap for a state of at
  least one word.
\<close>

definition RotateLeft :: "bool \<Rightarrow> nat \<Rightarrow> u64 list \<Rightarrow> u64 list" where
  "RotateLeft be state_size state_value =
     (let rotate_bytes = 2 * state_size + 3;
          bytes_num = state_size * 8;
          bytes = WordsToBytes_Inline be state_size state_value stack_bytes;
          buffer = memcpy stack_bytes 0 bytes rotate_bytes;
          bytes = memcpy bytes 0 (drop rotate_bytes bytes) (bytes_num - rotate_bytes);
          bytes = memcpy bytes (bytes_num - rotate_bytes) buffer rotate_bytes
      in BytesToWords_Inline be state_size bytes state_value)"

text \<open>\<^verbatim>\<open>KeyExpandKt\<close>: the context after the call and the array \<^verbatim>\<open>kt\<close>.\<close>

definition KeyExpandKt :: "tables \<Rightarrow> bool \<Rightarrow> u64 list \<Rightarrow> kalyna_t \<Rightarrow> u64 list \<Rightarrow> kalyna_t \<times> u64 list" where
  "KeyExpandKt T be key ctx kt =
     (let ctx = ctx\<lparr>state := memcpy (state ctx) 0 (replicate (nb ctx) 0) (nb ctx)\<rparr>;
          ctx = ctx\<lparr>state := (state ctx)[0 := state ctx ! 0 + of_nat (nb ctx + nk ctx + 1)]\<rparr>;
          (k0, k1) =
            (if nb ctx = nk ctx
             then (memcpy stack_words 0 key (nb ctx), memcpy stack_words 0 key (nb ctx))
             else (memcpy stack_words 0 key (nb ctx),
                   memcpy stack_words 0 (drop (nb ctx) key) (nb ctx)));
          ctx = AddRoundKeyExpand k0 ctx;
          ctx = EncipherRound T be ctx;
          ctx = XorRoundKeyExpand k1 ctx;
          ctx = EncipherRound T be ctx;
          ctx = AddRoundKeyExpand k0 ctx;
          ctx = EncipherRound T be ctx
      in (ctx, memcpy kt 0 (state ctx) (nb ctx)))"

text \<open>
  The local variables of \<^verbatim>\<open>KeyExpandEven\<close> that live across the iterations of its
  \<^verbatim>\<open>while(1)\<close>, together with the context.
\<close>

record even_vars =
  ev_round :: nat
  ev_initial_data :: "u64 list"
  ev_kt_round :: "u64 list"
  ev_tmv :: "u64 list"
  ev_ctx :: kalyna_t

text \<open>
  The block that occurs twice in the loop: \<^verbatim>\<open>kt_round = kt + tmv\<close>, the state loaded
  from \<^verbatim>\<open>initial_data + off\<close>, the five mixing steps, and the store into
  \<^verbatim>\<open>round_keys[round]\<close>.
\<close>

definition KeyExpandEven_derive :: "tables \<Rightarrow> bool \<Rightarrow> u64 list \<Rightarrow> nat \<Rightarrow> even_vars \<Rightarrow> even_vars" where
  "KeyExpandEven_derive T be kt off v =
     (let ctx = ev_ctx v;
          ctx = ctx\<lparr>state := memcpy (state ctx) 0 kt (nb ctx)\<rparr>;
          ctx = AddRoundKeyExpand (ev_tmv v) ctx;
          kt_round = memcpy (ev_kt_round v) 0 (state ctx) (nb ctx);
          ctx = ctx\<lparr>state := memcpy (state ctx) 0 (drop off (ev_initial_data v)) (nb ctx)\<rparr>;
          ctx = AddRoundKeyExpand kt_round ctx;
          ctx = EncipherRound T be ctx;
          ctx = XorRoundKeyExpand kt_round ctx;
          ctx = EncipherRound T be ctx;
          ctx = AddRoundKeyExpand kt_round ctx;
          ctx = ctx\<lparr>round_keys :=
                  (round_keys ctx)[ev_round v :=
                     memcpy (round_keys ctx ! ev_round v) 0 (state ctx) (nb ctx)]\<rparr>
      in v\<lparr>ev_kt_round := kt_round, ev_ctx := ctx\<rparr>)"

text \<open>
  One iteration of the \<^verbatim>\<open>while(1)\<close>: the flag tells whether the iteration left the
  loop through one of its two \<^verbatim>\<open>break\<close>s.
\<close>

definition KeyExpandEven_iteration :: "tables \<Rightarrow> bool \<Rightarrow> u64 list \<Rightarrow> even_vars \<Rightarrow> bool \<times> even_vars" where
  "KeyExpandEven_iteration T be kt v =
     (let v = KeyExpandEven_derive T be kt 0 v in
      if nr (ev_ctx v) = ev_round v then (True, v)
      else
        let (brk, v) =
              (if nk (ev_ctx v) \<noteq> nb (ev_ctx v) then
                 let v = v\<lparr>ev_round := ev_round v + 2\<rparr>;
                     v = v\<lparr>ev_tmv := ShiftLeft (nb (ev_ctx v)) (ev_tmv v)\<rparr>;
                     v = KeyExpandEven_derive T be kt (nb (ev_ctx v)) v
                 in (nr (ev_ctx v) = ev_round v, v)
               else (False, v))
        in if brk then (True, v)
           else
             let v = v\<lparr>ev_round := ev_round v + 2\<rparr>;
                 v = v\<lparr>ev_tmv := ShiftLeft (nb (ev_ctx v)) (ev_tmv v)\<rparr>;
                 v = v\<lparr>ev_initial_data := Rotate (nk (ev_ctx v)) (ev_initial_data v)\<rparr>
             in (False, v))"

text \<open>The \<^verbatim>\<open>while(1)\<close> itself; \<open>None\<close> when it never reaches a \<^verbatim>\<open>break\<close>.\<close>

partial_function (option) KeyExpandEven_while :: "tables \<Rightarrow> bool \<Rightarrow> u64 list \<Rightarrow> even_vars \<Rightarrow> even_vars option" where
  "KeyExpandEven_while T be kt v =
     (let r = KeyExpandEven_iteration T be kt v
      in if fst r then Some (snd r) else KeyExpandEven_while T be kt (snd r))"

definition KeyExpandEven :: "tables \<Rightarrow> bool \<Rightarrow> u64 list \<Rightarrow> u64 list \<Rightarrow> kalyna_t \<Rightarrow> kalyna_t option" where
  "KeyExpandEven T be key kt ctx =
     (let initial_data = memcpy stack_words 0 key (nk ctx);
          tmv = for_loop 0 (nb ctx) (\<lambda>i tmv. tmv[i := 0x0001000100010001]) stack_words
      in map_option ev_ctx
           (KeyExpandEven_while T be kt
              \<lparr>ev_round = 0, ev_initial_data = initial_data, ev_kt_round = stack_words,
               ev_tmv = tmv, ev_ctx = ctx\<rparr>))"

text \<open>\<^verbatim>\<open>KeyExpandOdd\<close>: \<^verbatim>\<open>for (size_t i = 1; i < ctx->nr; i += 2)\<close>.\<close>

function KeyExpandOdd_loop :: "bool \<Rightarrow> nat \<Rightarrow> kalyna_t \<Rightarrow> kalyna_t" where
  "KeyExpandOdd_loop be i ctx =
     (if i < nr ctx then
        let rk = memcpy (round_keys ctx ! i) 0 (round_keys ctx ! (i - 1)) (nb ctx);
            rk = RotateLeft be (nb ctx) rk
        in KeyExpandOdd_loop be (i + 2) (ctx\<lparr>round_keys := (round_keys ctx)[i := rk]\<rparr>)
      else ctx)"
  by pat_completeness auto
termination
  by (relation "measure (\<lambda>(be, i, ctx). nr ctx - i)") auto

declare KeyExpandOdd_loop.simps [simp del]

definition KeyExpandOdd :: "bool \<Rightarrow> kalyna_t \<Rightarrow> kalyna_t" where
  "KeyExpandOdd be ctx = KeyExpandOdd_loop be 1 ctx"

definition KalynaKeyExpand :: "tables \<Rightarrow> bool \<Rightarrow> u64 list \<Rightarrow> kalyna_t \<Rightarrow> kalyna_t option" where
  "KalynaKeyExpand T be key ctx =
     (let (ctx, kt) = KeyExpandKt T be key ctx stack_words
      in map_option (KeyExpandOdd be) (KeyExpandEven T be key kt ctx))"

section \<open>Encipher and decipher\<close>

text \<open>
  \<^verbatim>\<open>KalynaEncipher\<close> and \<^verbatim>\<open>KalynaDecipher\<close>: the context after the call and the
  \<open>nb\<close> words the final \<^verbatim>\<open>memcpy\<close> writes to the caller's output buffer.  The
  functions return \<^verbatim>\<open>void\<close> and have no failure branch.
\<close>

definition KalynaEncipher :: "tables \<Rightarrow> bool \<Rightarrow> u64 list \<Rightarrow> kalyna_t \<Rightarrow> kalyna_t \<times> u64 list" where
  "KalynaEncipher T be plaintext ctx =
     (let ctx = ctx\<lparr>state := memcpy (state ctx) 0 plaintext (nb ctx)\<rparr>;
          ctx = AddRoundKey 0 ctx;
          ctx = for_loop 1 (nr ctx) (\<lambda>round ctx. XorRoundKey round (EncipherRound T be ctx)) ctx;
          ctx = EncipherRound T be ctx;
          ctx = AddRoundKey (nr ctx) ctx
      in (ctx, take (nb ctx) (state ctx)))"

definition KalynaDecipher :: "tables \<Rightarrow> bool \<Rightarrow> u64 list \<Rightarrow> kalyna_t \<Rightarrow> kalyna_t \<times> u64 list" where
  "KalynaDecipher T be ciphertext ctx =
     (let ctx = ctx\<lparr>state := memcpy (state ctx) 0 ciphertext (nb ctx)\<rparr>;
          ctx = SubRoundKey (nr ctx) ctx;
          ctx = for_down_above_0 (nr ctx - 1)
                  (\<lambda>round ctx. XorRoundKey round (DecipherRound T be ctx)) ctx;
          ctx = DecipherRound T be ctx;
          ctx = SubRoundKey 0 ctx
      in (ctx, take (nb ctx) (state ctx)))"

text \<open>
  Both drivers are \<^verbatim>\<open>void\<close> functions, and \<^verbatim>\<open>kalyna_t\<close> has no field that records
  whether \<^verbatim>\<open>KalynaKeyExpand\<close> has run: no call is ever refused.  Read as operations
  that may fail with one of the errors the specification names, they always succeed with
  the output buffer.
\<close>

datatype kalyna_error = UnsupportedConfiguration | InvalidState

definition Encipher_outcome :: "tables \<Rightarrow> bool \<Rightarrow> u64 list \<Rightarrow> kalyna_t \<Rightarrow> kalyna_error + u64 list" where
  "Encipher_outcome T be plaintext ctx = Inr (snd (KalynaEncipher T be plaintext ctx))"

definition Decipher_outcome :: "tables \<Rightarrow> bool \<Rightarrow> u64 list \<Rightarrow> kalyna_t \<Rightarrow> kalyna_error + u64 list" where
  "Decipher_outcome T be ciphertext ctx = Inr (snd (KalynaDecipher T be ciphertext ctx))"

section \<open>Auxiliary notions for the proofs\<close>

text \<open>Multiplication by the polynomial \<open>x\<close>, the doubling step of the loop.\<close>

definition xtime :: "u8 \<Rightarrow> u8" where
  "xtime x = (if bit x 7 then push_bit 1 x XOR 0x1d else push_bit 1 x)"

text \<open>The loop unrolled from the left: \<open>gmul n x y\<close> adds \<open>xtime^i x\<close> for each set bit \<open>i < n\<close> of \<open>y\<close>.\<close>

fun gmul :: "nat \<Rightarrow> u8 \<Rightarrow> u8 \<Rightarrow> u8" where
  "gmul 0 x y = 0"
| "gmul (Suc n) x y = (if bit y 0 then x else 0) XOR gmul n (xtime x) (drop_bit 1 y)"

definition byte_of :: "nat \<Rightarrow> u64 \<Rightarrow> u8" where
  "byte_of k w = ucast (drop_bit (8 * k) w)"

definition le_bytes :: "u64 \<Rightarrow> u8 list" where
  "le_bytes w = map (\<lambda>k. byte_of k w) [0..<8]"

definition words_to_bytes :: "u64 list \<Rightarrow> u8 list" where
  "words_to_bytes ws = concat (map le_bytes ws)"

definition bytes_to_words :: "nat \<Rightarrow> u8 list \<Rightarrow> u64 list" where
  "bytes_to_words n bs = map (\<lambda>i. le_word (take 8 (drop (8 * i) bs))) [0..<n]"

definition rows_step ::
  "nat \<Rightarrow> (nat \<Rightarrow> nat \<Rightarrow> nat \<Rightarrow> nat) \<Rightarrow> (nat \<Rightarrow> nat \<Rightarrow> nat \<Rightarrow> nat) \<Rightarrow> 'a list \<Rightarrow> nat \<Rightarrow> nat \<times> 'a list \<Rightarrow> nat \<times> 'a list" where
  "rows_step n dst src st =
     (\<lambda>row (shift, nstate).
        let shift = (if row mod (8 div n) = 0 \<and> row > 0 then shift + 1 else shift)
        in (shift, for_loop 0 n (\<lambda>col nstate. nstate[dst row col shift := st ! src row col shift]) nstate))"

fun xor_sum :: "(nat \<Rightarrow> u8) \<Rightarrow> nat \<Rightarrow> u8" where
  "xor_sum f 0 = 0"
| "xor_sum f (Suc n) = xor_sum f n XOR f n"

definition matrix_product :: "(nat \<Rightarrow> nat \<Rightarrow> u8) \<Rightarrow> (nat \<Rightarrow> nat \<Rightarrow> u8) \<Rightarrow> nat \<Rightarrow> nat \<Rightarrow> u8" where
  "matrix_product A B r c = xor_sum (\<lambda>b. MultiplyGF (A r b) (B b c)) 8"

definition state_ok :: "kalyna_t \<Rightarrow> bool" where
  "state_ok ctx = ((nb ctx = 2 \<or> nb ctx = 4 \<or> nb ctx = 8) \<and> length (state ctx) = nb ctx)"

definition sboxes_ok :: "tables \<Rightarrow> bool" where
  "sboxes_ok T =
     list_all (\<lambda>t. list_all (\<lambda>x. sboxes_dec T t (sboxes_enc T t (of_nat x)) = of_nat x) [0..<256])
       [0..<4]"

definition mds_ok :: "tables \<Rightarrow> bool" where
  "mds_ok T =
     list_all (\<lambda>r. list_all (\<lambda>c. matrix_product (mds_inv_matrix T) (mds_matrix T) r c
                                    = (if r = c then 1 else 0)) [0..<8])
       [0..<8]"

definition tables_ok :: "tables \<Rightarrow> bool" where
  "tables_ok T = (sboxes_ok T \<and> mds_ok T)"

definition mds_rows :: "u8 list list" where
  "mds_rows =
    [[0x01, 0x01, 0x05, 0x01, 0x08, 0x06, 0x07, 0x04],
     [0x04, 0x01, 0x01, 0x05, 0x01, 0x08, 0x06, 0x07],
     [0x07, 0x04, 0x01, 0x01, 0x05, 0x01, 0x08, 0x06],
     [0x06, 0x07, 0x04, 0x01, 0x01, 0x05, 0x01, 0x08],
     [0x08, 0x06, 0x07, 0x04, 0x01, 0x01, 0x05, 0x01],
     [0x01, 0x08, 0x06, 0x07, 0x04, 0x01, 0x01, 0x05],
     [0x05, 0x01, 0x08, 0x06, 0x07, 0x04, 0x01, 0x01],
     [0x01, 0x05, 0x01, 0x08, 0x06, 0x07, 0x04, 0x01]]"

definition mds_inv_rows :: "u8 list list" where
  "mds_inv_rows =
    [[0xAD, 0x95, 0x76, 0xA8, 0x2F, 0x49, 0xD7, 0xCA],
     [0xCA, 0xAD, 0x95, 0x76, 0xA8, 0x2F, 0x49, 0xD7],
     [0xD7, 0xCA, 0xAD, 0x95, 0x76, 0xA8, 0x2F, 0x49],
     [0x49, 0xD7, 0xCA, 0xAD, 0x95, 0x76, 0xA8, 0x2F],
     [0x2F, 0x49, 0xD7, 0xCA, 0xAD, 0x95, 0x76, 0xA8],
     [0xA8, 0x2F, 0x49, 0xD7, 0xCA, 0xAD, 0x95, 0x76],
     [0x76, 0xA8, 0x2F, 0x49, 0xD7, 0xCA, 0xAD, 0x95],
     [0x95, 0x76, 0xA8, 0x2F, 0x49, 0xD7, 0xCA, 0xAD]]"

text \<open>
  A table set for evaluating the model on concrete inputs.  The two matrices are the
  MDS matrix of DSTU 7624:2014 and its inverse.  The four S-boxes of the standard are
  1024 constants that the sources do not contain; in their place stand the byte
  permutations \<open>x \<mapsto> x + t + 1\<close> with their inverses.
\<close>

definition sample_tables :: tables where
  "sample_tables =
     \<lparr>sboxes_enc = (\<lambda>t x. x + of_nat t + 1),
      sboxes_dec = (\<lambda>t x. x - of_nat t - 1),
      mds_matrix = (\<lambda>r c. mds_rows ! r ! c),
      mds_inv_matrix = (\<lambda>r c. mds_inv_rows ! r ! c)\<rparr>"

text \<open>
  The invariants of a context between calls (spec, section 3): the state buffer has
  \<open>nb\<close> words, there are \<open>nr + 1\<close> round keys, and each has \<open>nb\<close> words.
\<close>

definition ctx_ok :: "kalyna_t \<Rightarrow> bool" where
  "ctx_ok ctx =
     (state_ok ctx \<and> length (round_keys ctx) = nr ctx + 1 \<and>
      list_all (\<lambda>rk. length rk = nb ctx) (round_keys ctx))"

text \<open>The five supported (block size, key size) pairs, in bits, and their round counts.\<close>

definition valid_configurations :: "(nat \<times> nat) list" where
  "valid_configurations = [(128, 128), (128, 256), (256, 256), (256, 512), (512, 512)]"

definition valid_rounds :: "nat list" where
  "valid_rounds = [10, 14, 14, 18, 18]"

definition same_config :: "kalyna_t \<Rightarrow> kalyna_t \<Rightarrow> bool" where
  "same_config ctx c = (nb c = nb ctx \<and> nk c = nk ctx \<and> nr c = nr ctx \<and> ctx_ok c)"

text \<open>The parameter triples \<open>(nb, nk, nr)\<close> that \<^verbatim>\<open>KalynaInit\<close> stores.\<close>

definition config_ok :: "kalyna_t \<Rightarrow> bool" where
  "config_ok ctx =
     ((nb ctx, nk ctx, nr ctx) \<in> set [(2, 2, 10), (2, 4, 14), (4, 4, 14), (4, 8, 18), (8, 8, 18)])"

definition even_inv :: "kalyna_t \<Rightarrow> even_vars \<Rightarrow> bool" where
  "even_inv ctx v =
     (same_config ctx (ev_ctx v) \<and> length (ev_tmv v) = 8 \<and> length (ev_initial_data v) = 8 \<and>
      length (ev_kt_round v) = 8 \<and> ev_round v \<le> nr ctx \<and> even (ev_round v))"

text \<open>A context in the state Created: every round key is still the zero block of \<^verbatim>\<open>calloc\<close>.\<close>

definition zero_keys :: "kalyna_t \<Rightarrow> bool" where
  "zero_keys ctx = (round_keys ctx = replicate (nr ctx + 1) (replicate (nb ctx) 0))"

definition created :: "kalyna_t \<Rightarrow> kalyna_t \<Rightarrow> bool" where
  "created ctx c = (state_ok c \<and> zero_keys c \<and> nb c = nb ctx \<and> nr c = nr ctx)"

text \<open>
  The steps that the specification of the encipher driver names, and the sequence in
  which it lists them for a context of \<open>r\<close> rounds: \<^verbatim>\<open>AddRoundKey(0)\<close>; for
  \<open>round = 1 .. r - 1\<close>, \<^verbatim>\<open>EncipherRound\<close> then \<^verbatim>\<open>XorRoundKey(round)\<close>; one final
  \<^verbatim>\<open>EncipherRound\<close>; \<^verbatim>\<open>AddRoundKey(r)\<close>.
\<close>

datatype round_op = OpAddRoundKey nat | OpXorRoundKey nat | OpEncipherRound

fun run_op :: "tables \<Rightarrow> bool \<Rightarrow> round_op \<Rightarrow> kalyna_t \<Rightarrow> kalyna_t" where
  "run_op T be (OpAddRoundKey round) ctx = AddRoundKey round ctx"
| "run_op T be (OpXorRoundKey round) ctx = XorRoundKey round ctx"
| "run_op T be OpEncipherRound ctx = EncipherRound T be ctx"

definition Encipher_sequence :: "nat \<Rightarrow> round_op list" where
  "Encipher_sequence r =
     [OpAddRoundKey 0]
     @ concat (map (\<lambda>round. [OpEncipherRound, OpXorRoundKey round]) [1..<r])
     @ [OpEncipherRound, OpAddRoundKey r]"

section \<open>Properties of the loops\<close>

lemma for_loop_fold: "for_loop i n body s = fold body [i..<n] s"
proof (induction i n body s rule: for_loop.induct)
  case (1 i n body s)
  show ?case
  proof (cases "i < n")
    case True
    with 1 show ?thesis
      by (subst for_loop.simps) (simp add: upt_conv_Cons)
  next
    case False
    then show ?thesis
      by (subst for_loop.simps) simp
  qed
qed

lemma for_loop_const_body: "for_loop 0 n (\<lambda>i. f) s = (f ^^ n) s"
  by (induction n arbitrary: s) (simp_all add: for_loop_fold funpow_swap1)

section \<open>The field GF(2^8)\<close>

lemma and_exp_eq_exp_iff:
  assumes "n < 8" shows "((a::u8) AND 2 ^ n = 2 ^ n) = bit a n"
proof
  assume "a AND 2 ^ n = 2 ^ n"
  then have "bit (a AND 2 ^ n) n = bit (2 ^ n :: u8) n" by simp
  then show "bit a n" using assms by (simp add: bit_simps)
next
  assume h: "bit a n"
  show "a AND 2 ^ n = 2 ^ n"
    by (rule bit_word_eqI) (use h in \<open>auto simp: bit_simps\<close>)
qed

lemma high_bit_test: "(x AND (0x80::u8) = 0x80) = bit x 7"
  using and_exp_eq_exp_iff [of 7 x] by simp

lemma low_bit_test: "(y AND (1::u8) = 1) = bit y 0"
  by (simp add: bit_iff_and_drop_bit_eq_1)

lemma reduce_in_int:
  "(ucast ((ucast (x::u8) :: 32 word) XOR kREDUCTION_POLYNOMIAL) :: u8) = x XOR 0x1d"
proof -
  have a: "(ucast (ucast x :: 32 word) :: u8) = x"
    by (rule bit_word_eqI) (simp add: bit_simps)
  have b: "(ucast (0x11d :: 32 word) :: u8) = 0x1d" by simp
  show ?thesis unfolding kREDUCTION_POLYNOMIAL_def unsigned_xor_eq a b ..
qed

lemma MultiplyGF_body_xtime:
  "MultiplyGF_body (x, y, r) = (xtime x, drop_bit 1 y, if bit y 0 then r XOR x else r)"
  by (simp add: MultiplyGF_body_def Let_def high_bit_test low_bit_test reduce_in_int xtime_def)

lemma MultiplyGF_iter:
  "snd (snd ((MultiplyGF_body ^^ n) (x, y, r))) = r XOR gmul n x y"
proof (induction n arbitrary: x y r)
  case 0
  then show ?case by simp
next
  case (Suc n)
  have "(MultiplyGF_body ^^ Suc n) (x, y, r) = (MultiplyGF_body ^^ n) (MultiplyGF_body (x, y, r))"
    by (simp add: funpow_swap1)
  then show ?case
    by (simp add: MultiplyGF_body_xtime Suc.IH xor.assoc del: funpow.simps)
qed

lemma MultiplyGF_gmul: "MultiplyGF x y = gmul 8 x y"
  by (simp add: MultiplyGF_def for_loop_const_body MultiplyGF_iter del: funpow.simps)

lemma bit7_xor: "bit (a XOR b :: u8) 7 = (bit a 7 \<noteq> bit b 7)"
  by (simp add: bit_simps)

lemma xtime_xor: "xtime (a XOR b) = xtime a XOR xtime b"
  unfolding xtime_def
  by (simp add: bit7_xor xor.assoc xor.left_commute xor.commute)

lemma xtime_0: "xtime 0 = 0"
  by (simp add: xtime_def)

lemma gmul_0_left: "gmul n 0 y = 0"
  by (induction n arbitrary: y) (simp_all add: xtime_0)

lemma gmul_0_right: "gmul n x 0 = 0"
  by (induction n arbitrary: x) simp_all

lemma gmul_xor_left: "gmul n (a XOR b) y = gmul n a y XOR gmul n b y"
  by (induction n arbitrary: a b y)
     (simp_all add: xtime_xor xor.assoc xor.left_commute xor.commute)

lemma gmul_xtime: "gmul n (xtime x) y = xtime (gmul n x y)"
  by (induction n arbitrary: x y) (simp_all add: xtime_xor xtime_0)

text \<open>Two multiplications, seen as operators on the first argument, commute.\<close>

lemma gmul_gmul: "gmul n (gmul m x z) y = gmul m (gmul n x y) z"
  by (induction n arbitrary: x y) (simp_all add: gmul_xor_left gmul_0_left gmul_xtime)

lemma xtime_exp: "k < 7 \<Longrightarrow> xtime (2 ^ k) = 2 ^ Suc k"
  by (simp add: xtime_def bit_simps)

lemma take_bit_step:
  "push_bit k (take_bit (Suc n) (y::u8)) =
     (if bit y 0 then 2 ^ k else 0) XOR push_bit (Suc k) (take_bit n (drop_bit 1 y))"
proof (rule bit_word_eqI)
  fix i assume i: "i < LENGTH(8)"
  show "bit (push_bit k (take_bit (Suc n) y)) i =
        bit ((if bit y 0 then 2 ^ k else 0) XOR push_bit (Suc k) (take_bit n (drop_bit 1 y))) i"
  proof (cases "i = k")
    case True
    then show ?thesis using i
      by (simp add: bit_simps del: push_bit_Suc)
  next
    case False
    then have "k \<le> i \<longleftrightarrow> Suc k \<le> i" by arith
    moreover have "Suc k \<le> i \<Longrightarrow> Suc (i - Suc k) = i - k" by arith
    moreover have "Suc k \<le> i \<Longrightarrow> (i - k < Suc n) = (i - Suc k < n)" by arith
    ultimately show ?thesis using False i
      by (auto simp add: bit_simps simp del: push_bit_Suc)
  qed
qed

lemma gmul_exp: "k + n \<le> 8 \<Longrightarrow> gmul n (2 ^ k) y = push_bit k (take_bit n y)"
proof (induction n arbitrary: k y)
  case 0
  then show ?case by simp
next
  case (Suc n)
  show ?case
  proof (cases n)
    case 0
    then show ?thesis by (simp add: take_bit_Suc mod_2_eq_odd bit_0)
  next
    case (Suc m)
    with Suc.prems have k: "k < 7" and kn: "Suc k + n \<le> 8" by simp_all
    have "gmul (Suc n) (2 ^ k) y =
          (if bit y 0 then 2 ^ k else 0) XOR gmul n (2 ^ Suc k) (drop_bit 1 y)"
      using xtime_exp [OF k] by (simp del: power_Suc)
    also have "\<dots> =
          (if bit y 0 then 2 ^ k else 0) XOR push_bit (Suc k) (take_bit n (drop_bit 1 y))"
      by (simp only: Suc.IH [OF kn])
    finally show ?thesis by (simp only: take_bit_step)
  qed
qed

lemma gmul_one_left: "gmul 8 1 x = x"
  using gmul_exp [of 0 8 x] by (simp add: take_bit_word_eq_self)

lemma gmul_one_right: "gmul 8 x 1 = x"
  by (simp add: eval_nat_numeral)

lemma gmul_commute: "gmul 8 x y = gmul 8 y x"
proof -
  have "gmul 8 x y = gmul 8 (gmul 8 1 x) y" by (simp only: gmul_one_left)
  also have "\<dots> = gmul 8 (gmul 8 1 y) x" by (rule gmul_gmul)
  finally show ?thesis by (simp only: gmul_one_left)
qed

lemma gmul_assoc: "gmul 8 (gmul 8 x y) z = gmul 8 x (gmul 8 y z)"
proof -
  have "gmul 8 x (gmul 8 y z) = gmul 8 (gmul 8 y z) x" by (rule gmul_commute)
  also have "\<dots> = gmul 8 (gmul 8 y x) z" by (rule gmul_gmul)
  finally show ?thesis by (simp only: gmul_commute [of y x])
qed

lemma MultiplyGF_commute: "MultiplyGF x y = MultiplyGF y x"
  by (simp only: MultiplyGF_gmul gmul_commute [of x y])

lemma MultiplyGF_assoc: "MultiplyGF (MultiplyGF x y) z = MultiplyGF x (MultiplyGF y z)"
  by (simp only: MultiplyGF_gmul gmul_assoc)

lemma MultiplyGF_xor_left: "MultiplyGF (a XOR b) y = MultiplyGF a y XOR MultiplyGF b y"
  by (simp only: MultiplyGF_gmul gmul_xor_left)

lemma MultiplyGF_one_right: "MultiplyGF x 1 = x"
  by (simp only: MultiplyGF_gmul gmul_one_right)

lemma MultiplyGF_zero_right: "MultiplyGF x 0 = 0"
  by (simp only: MultiplyGF_gmul gmul_0_right)

lemma MultiplyGF_zero_left: "MultiplyGF 0 y = 0"
  by (simp only: MultiplyGF_gmul gmul_0_left)

lemma for_loop_Suc: "for_loop 0 (Suc n) body s = body n (for_loop 0 n body s)"
  by (simp add: for_loop_fold)

lemma length_for_loop_update [simp]:
  "length (for_loop 0 n (\<lambda>i s. s[i := h i s]) s) = length s"
  by (induction n) (simp_all add: for_loop_Suc, simp add: for_loop_fold)

lemma nth_for_loop_update:
  "j < length s \<Longrightarrow> for_loop 0 n (\<lambda>i s. s[i := g i (s ! i)]) s ! j =
     (if j < n then g j (s ! j) else s ! j)"
proof (induction n)
  case 0
  then show ?case by (simp add: for_loop_fold)
next
  case (Suc n)
  then show ?case
    by (auto simp add: for_loop_Suc nth_list_update less_Suc_eq)
qed

lemma for_loop_update_map:
  assumes "length s = n"
  shows "for_loop 0 n (\<lambda>i s. s[i := g i (s ! i)]) s = map (\<lambda>i. g i (s ! i)) [0..<n]"
  using assms by (intro nth_equalityI) (simp_all add: nth_for_loop_update)

lemma nth_for_loop_const:
  "j < length s \<Longrightarrow> for_loop 0 n (\<lambda>i s. s[i := c i]) s ! j = (if j < n then c j else s ! j)"
  using nth_for_loop_update [where g = "\<lambda>i x. c i" and s = s and j = j and n = n] by simp

lemma for_loop_const_map:
  assumes "length s = n"
  shows "for_loop 0 n (\<lambda>i s. s[i := c i]) s = map c [0..<n]"
  using assms by (intro nth_equalityI) (simp_all add: nth_for_loop_const)

lemma bit_byte_of: "bit (byte_of k w) j \<longleftrightarrow> j < 8 \<and> bit w (8 * k + j)"
  by (auto simp add: byte_of_def bit_simps)

lemma lt8_cases: "r < 8 \<Longrightarrow> r = 0 \<or> r = 1 \<or> r = 2 \<or> r = 3 \<or> r = 4 \<or> r = 5 \<or> r = 6 \<or> r = (7::nat)"
  by arith

lemma upt_0_8: "[0..<8] = [0,1,2,3,4,5,6,7::nat]"
  by (simp add: upt_conv_Cons)

lemma word_eq_by_bytes:
  assumes "\<And>r. r < 8 \<Longrightarrow> byte_of r a = byte_of r b"
  shows "a = b"
proof (rule bit_word_eqI)
  fix n assume n: "n < LENGTH(64)"
  then have "n div 8 < 8" by simp
  from assms [OF this] have "bit (byte_of (n div 8) a) (n mod 8) = bit (byte_of (n div 8) b) (n mod 8)"
    by simp
  then show "bit a n = bit b n"
    by (simp add: bit_byte_of)
qed

lemma le_word_Cons: "le_word (b # bs) = ucast b OR push_bit 8 (le_word bs)"
  by (simp add: le_word_def)

lemma bit_le_word:
  "bit (le_word bs) n \<longleftrightarrow> n < 64 \<and> n div 8 < length bs \<and> bit (bs ! (n div 8)) (n mod 8)"
proof (induction bs arbitrary: n)
  case Nil
  then show ?case by (simp add: le_word_def)
next
  case (Cons b bs)
  show ?case
  proof (cases "n < 8")
    case True
    then show ?thesis by (simp add: le_word_Cons bit_simps)
  next
    case False
    then have "n div 8 = Suc ((n - 8) div 8)" "(n - 8) mod 8 = n mod 8" 
      by (simp_all add: le_div_geq le_mod_geq)
    with False show ?thesis
      by (auto simp add: le_word_Cons bit_simps Cons.IH dest: bit_imp_le_length)
  qed
qed

lemma byte_of_le_word: "k < length bs \<Longrightarrow> length bs \<le> 8 \<Longrightarrow> byte_of k (le_word bs) = bs ! k"
  by (rule bit_word_eqI) (auto simp add: bit_byte_of bit_le_word bit_simps)

lemma m0: "(0x00000000000000FF :: u64) = push_bit (8 * 0) (mask 8)" 
  and m1: "(0x000000000000FF00 :: u64) = push_bit (8 * 1) (mask 8)" 
  and m2: "(0x0000000000FF0000 :: u64) = push_bit (8 * 2) (mask 8)" 
  and m3: "(0x00000000FF000000 :: u64) = push_bit (8 * 3) (mask 8)" 
  and m4: "(0x000000FF00000000 :: u64) = push_bit (8 * 4) (mask 8)" 
  and m5: "(0x0000FF0000000000 :: u64) = push_bit (8 * 5) (mask 8)" 
  and m6: "(0x00FF000000000000 :: u64) = push_bit (8 * 6) (mask 8)" 
  and m7: "(0xFF00000000000000 :: u64) = push_bit (8 * 7) (mask 8)" 
  by (simp_all add: mask_eq_exp_minus_1 push_bit_eq_mult)

lemma masked_byte: "(ucast (drop_bit (8 * k) (s AND push_bit (8 * k) (mask 8))) :: u8) = byte_of k (s :: u64)"
  by (rule bit_word_eqI) (auto simp add: bit_byte_of bit_simps dest: bit_imp_le_length)

lemma sbox_word_bytes:
  "sbox_word sb s =
     ucast (sb 0 (byte_of 0 s)) OR
     push_bit 8 (ucast (sb 1 (byte_of 1 s))) OR
     push_bit 16 (ucast (sb 2 (byte_of 2 s))) OR
     push_bit 24 (ucast (sb 3 (byte_of 3 s))) OR
     push_bit 32 (ucast (sb 0 (byte_of 4 s))) OR
     push_bit 40 (ucast (sb 1 (byte_of 5 s))) OR
     push_bit 48 (ucast (sb 2 (byte_of 6 s))) OR
     push_bit 56 (ucast (sb 3 (byte_of 7 s)))"
proof -
  have "sbox_word sb s =
     ucast (sb 0 (ucast (drop_bit (8 * 0) (s AND push_bit (8 * 0) (mask 8))))) OR
     push_bit 8 (ucast (sb 1 (ucast (drop_bit (8 * 1) (s AND push_bit (8 * 1) (mask 8)))))) OR
     push_bit 16 (ucast (sb 2 (ucast (drop_bit (8 * 2) (s AND push_bit (8 * 2) (mask 8)))))) OR
     push_bit 24 (ucast (sb 3 (ucast (drop_bit (8 * 3) (s AND push_bit (8 * 3) (mask 8)))))) OR
     push_bit 32 (ucast (sb 0 (ucast (drop_bit (8 * 4) (s AND push_bit (8 * 4) (mask 8)))))) OR
     push_bit 40 (ucast (sb 1 (ucast (drop_bit (8 * 5) (s AND push_bit (8 * 5) (mask 8)))))) OR
     push_bit 48 (ucast (sb 2 (ucast (drop_bit (8 * 6) (s AND push_bit (8 * 6) (mask 8)))))) OR
     push_bit 56 (ucast (sb 3 (ucast (drop_bit (8 * 7) (s AND push_bit (8 * 7) (mask 8))))))"
    unfolding sbox_word_def
    by (simp only: m0 [symmetric] m1 [symmetric] m2 [symmetric] m3 [symmetric] m4 [symmetric] m5 [symmetric] m6 [symmetric] m7 [symmetric]) simp
  then show ?thesis by (simp only: masked_byte)
qed

lemma length_le_bytes [simp]: "length (le_bytes w) = 8"
  by (simp add: le_bytes_def)

lemma nth_le_bytes: "k < 8 \<Longrightarrow> le_bytes w ! k = byte_of k w"
  by (simp add: le_bytes_def)

lemma le_bytes_le_word: "length bs = 8 \<Longrightarrow> le_bytes (le_word bs) = bs"
  by (rule nth_equalityI) (simp_all add: nth_le_bytes byte_of_le_word)

lemma le_word_le_bytes: "le_word (le_bytes w) = w"
  by (rule word_eq_by_bytes) (simp add: byte_of_le_word nth_le_bytes)

lemma sbox_word_le_word:
  "sbox_word sb s = le_word (map (\<lambda>k. sb (k mod 4) (byte_of k s)) [0..<8])"
  by (simp add: sbox_word_bytes le_word_def upt_0_8)

lemma byte_of_sbox_word: "r < 8 \<Longrightarrow> byte_of r (sbox_word sb s) = sb (r mod 4) (byte_of r s)"
  by (simp add: sbox_word_le_word byte_of_le_word)

lemma sbox_word_inverse:
  assumes "\<And>t x. t < 4 \<Longrightarrow> dec t (enc t x) = x"
  shows "sbox_word dec (sbox_word enc s) = s"
  by (rule word_eq_by_bytes) (simp add: byte_of_sbox_word assms)

lemma host_bytes_8: "host_bytes be 8 (w::u64) = (if be then rev (le_bytes w) else le_bytes w)"
  by (simp add: host_bytes_def le_bytes_def byte_of_def)

lemma upt_0_4: "[0..<4] = [0,1,2,3::nat]"
  by (simp add: upt_conv_Cons)

lemma IsBigEndian_eq [simp]: "IsBigEndian be = be"
  by (simp add: IsBigEndian_def host_bytes_def upt_0_4 Let_def)

lemma ReverseWord_eq: "ReverseWord be w = le_word (rev (le_bytes w))"
proof -
  have "for_loop 0 8 (\<lambda>i dst. dst[i := host_bytes be 8 w ! (8 - 1 - i)]) (host_bytes be 8 (0 :: u64))
        = map (\<lambda>i. host_bytes be 8 w ! (8 - 1 - i)) [0..<8]"
    by (rule for_loop_const_map) (simp add: host_bytes_8)
  also have "\<dots> = rev (host_bytes be 8 w)"
    by (rule nth_equalityI) (simp_all add: host_bytes_8 rev_nth)
  finally show ?thesis
    by (simp add: ReverseWord_def host_word_def host_bytes_8)
qed

lemma host_bytes_ReverseWord: "host_bytes True 8 (ReverseWord True w) = le_bytes w"
  by (simp add: host_bytes_8 ReverseWord_eq le_bytes_le_word)

lemma ReverseWord_host_word: "length bs = 8 \<Longrightarrow> ReverseWord True (host_word True bs) = le_word bs"
  by (simp add: ReverseWord_eq host_word_def le_bytes_le_word)

lemma length_words_to_bytes [simp]: "length (words_to_bytes ws) = 8 * length ws"
  by (induction ws) (simp_all add: words_to_bytes_def)

lemma length_bytes_to_words [simp]: "length (bytes_to_words n bs) = n"
  by (simp add: bytes_to_words_def)

lemma words_to_bytes_Nil [simp]: "words_to_bytes [] = []"
  by (simp add: words_to_bytes_def)

lemma host_bytes_8_False: "host_bytes False 8 = le_bytes"
  by (rule ext) (simp add: host_bytes_8)

lemma words_to_bytes_Cons: "words_to_bytes (w # ws) = le_bytes w @ words_to_bytes ws"
  by (simp add: words_to_bytes_def)

lemma words_to_bytes_snoc: "words_to_bytes (ws @ [w]) = words_to_bytes ws @ le_bytes w"
  by (simp add: words_to_bytes_def)

lemma take_words_to_bytes: "take (n * 8) (words_to_bytes ws) = words_to_bytes (take n ws)"
proof (induction ws arbitrary: n)
  case Nil
  then show ?case by (simp add: words_to_bytes_def)
next
  case (Cons w ws)
  then show ?case by (cases n) (simp_all add: words_to_bytes_Cons)
qed

lemma nth_words_to_bytes:
  "r < 8 \<Longrightarrow> col < length ws \<Longrightarrow> words_to_bytes ws ! (r + col * 8) = byte_of r (ws ! col)"
proof (induction ws arbitrary: col)
  case Nil
  then show ?case by simp
next
  case (Cons w ws)
  then show ?case
    by (cases col) (simp_all add: words_to_bytes_Cons nth_append nth_le_bytes)
qed

lemma byte_of_bytes_to_words:
  assumes "r < 8" "j < n" "8 * n \<le> length bs"
  shows "byte_of r (bytes_to_words n bs ! j) = bs ! (r + j * 8)"
proof -
  from assms have "length (take 8 (drop (8 * j) bs)) = 8" by simp
  with assms show ?thesis
    by (simp add: bytes_to_words_def byte_of_le_word add.commute mult.commute)
qed

lemma memcpy_0: "memcpy dst 0 src n = take n src @ drop n dst"
  by (simp add: memcpy_def)

lemma length_memcpy: "n \<le> length src \<Longrightarrow> off + n \<le> length dst \<Longrightarrow> length (memcpy dst off src n) = length dst"
  by (simp add: memcpy_def)

lemma WordsToBytes_Inline_eq:
  assumes "n \<le> length words" "8 * n \<le> length bytes"
  shows "WordsToBytes_Inline be n words bytes = words_to_bytes (take n words) @ drop (8 * n) bytes"
proof (cases be)
  case False
  have "concat (map (host_bytes False 8) words) = words_to_bytes words"
    by (simp add: words_to_bytes_def host_bytes_8_False)
  with False show ?thesis
    by (simp add: WordsToBytes_Inline_def memcpy_0 take_words_to_bytes mult.commute)
next
  case True
  have "m \<le> n \<Longrightarrow>
      for_loop 0 m (\<lambda>i bytes. let w = ReverseWord True (words ! i)
                              in memcpy bytes (i * 8) (host_bytes True 8 w) 8) bytes
      = words_to_bytes (take m words) @ drop (8 * m) bytes" for m
  proof (induction m)
    case 0
    then show ?case by (simp add: for_loop_fold words_to_bytes_def)
  next
    case (Suc m)
    then have m: "m < length words" "8 * m + 8 \<le> length bytes" using assms by simp_all
    then have "take (Suc m) words = take m words @ [words ! m]"
      by (simp add: take_Suc_conv_app_nth)
    with Suc m show ?case
      by (simp add: for_loop_Suc host_bytes_ReverseWord memcpy_def words_to_bytes_snoc
          mult.commute add.commute)
  qed
  from this [of n] True show ?thesis
    by (simp add: WordsToBytes_Inline_def)
qed

lemma BytesToWords_Inline_eq:
  assumes "n \<le> length words" "8 * n \<le> length bytes"
  shows "BytesToWords_Inline be n bytes words = bytes_to_words n bytes @ drop n words"
proof (cases be)
  case False
  then show ?thesis
    by (simp add: BytesToWords_Inline_def memcpy_0 bytes_to_words_def host_word_def Let_def)
next
  case True
  have seg: "length (take 8 (drop (8 * i) bytes)) = 8" if "i < n" for i
    using that assms by simp
  define w1 where "w1 = memcpy words 0 (map (\<lambda>i. host_word True (take 8 (drop (8 * i) bytes))) [0..<n]) n"
  have w1: "w1 = map (\<lambda>i. host_word True (take 8 (drop (8 * i) bytes))) [0..<n] @ drop n words"
    by (simp add: w1_def memcpy_0)
  have len: "length w1 = length words"
    using assms by (simp add: w1)
  have "for_loop 0 n (\<lambda>i ws. ws[i := ReverseWord True (ws ! i)]) w1
        = bytes_to_words n bytes @ drop n words"
  proof (rule nth_equalityI)
    show "length (for_loop 0 n (\<lambda>i ws. ws[i := ReverseWord True (ws ! i)]) w1)
          = length (bytes_to_words n bytes @ drop n words)"
      using assms by (simp add: len)
  next
    fix j assume "j < length (for_loop 0 n (\<lambda>i ws. ws[i := ReverseWord True (ws ! i)]) w1)"
    then have j: "j < length w1" by simp
    show "for_loop 0 n (\<lambda>i ws. ws[i := ReverseWord True (ws ! i)]) w1 ! j
          = (bytes_to_words n bytes @ drop n words) ! j"
      using nth_for_loop_update [where g = "\<lambda>i. ReverseWord True" and s = w1 and n = n, OF j] seg [of j]
      by (auto simp add: w1 nth_append bytes_to_words_def ReverseWord_host_word)
  qed
  with True show ?thesis
    by (simp add: BytesToWords_Inline_def Let_def w1_def)
qed

lemma mod_add_inj:
  fixes a b s n :: nat
  assumes "a < n" "b < n" "(a + s) mod n = (b + s) mod n"
  shows "a = b"
proof -
  have *: "x = y" if "x \<le> y" "y < n" "(x + s) mod n = (y + s) mod n" for x y
  proof (rule ccontr)
    assume "x \<noteq> y"
    with that have pos: "0 < y - x" by simp
    from that have le: "x + s \<le> y + s" and eq: "(y + s) mod n = (x + s) mod n" by simp_all
    have "n dvd (y + s) - (x + s)"
      using mod_eq_dvd_iff_nat [OF le, of n] eq by blast
    then have "n dvd y - x" by simp
    from dvd_imp_le [OF this pos] that show False by simp
  qed
  show ?thesis
  proof (cases "a \<le> b")
    case True
    from * [OF True assms(2) assms(3)] show ?thesis .
  next
    case False
    then have "b \<le> a" by simp
    from * [OF this assms(1) assms(3) [symmetric]] show ?thesis by simp
  qed
qed

lemma length_for_loop_scatter [simp]:
  "length (for_loop 0 n (\<lambda>i s. s[f i := h i s]) s) = length s"
  by (induction n) (simp_all add: for_loop_Suc, simp add: for_loop_fold)

lemma for_loop_scatter:
  assumes "inj_on f {..<n}" and "\<And>i. i < n \<Longrightarrow> f i < length ns"
  shows "(\<forall>i<n. for_loop 0 n (\<lambda>i ns. ns[f i := c i]) ns ! f i = c i) \<and>
         (\<forall>q. (\<forall>i<n. f i \<noteq> q) \<longrightarrow> for_loop 0 n (\<lambda>i ns. ns[f i := c i]) ns ! q = ns ! q)"
  using assms
proof (induction n)
  case 0
  then show ?case by (simp add: for_loop_fold)
next
  case (Suc n)
  from Suc.prems(1) have inj: "inj_on f {..<n}"
    by (rule inj_on_subset) auto
  from Suc.prems(1) have ne: "\<forall>i<n. f i \<noteq> f n"
    by (auto simp add: inj_on_def)
  note IH = Suc.IH [OF inj Suc.prems(2) [OF less_SucI]]
  show ?case
    using IH ne Suc.prems(2) [of n]
    by (auto simp add: for_loop_Suc less_Suc_eq nth_list_update)
qed

lemma row_sep: "row < 8 \<Longrightarrow> row' < 8 \<Longrightarrow> row \<noteq> row' \<Longrightarrow> row + k * 8 \<noteq> row' + k' * (8::nat)"
  by presburger

lemma rows_step_apply:
  "rows_step n dst src st row (shift, nstate) =
     (let shift = (if row mod (8 div n) = 0 \<and> row > 0 then shift + 1 else shift)
      in (shift, for_loop 0 n (\<lambda>col nstate. nstate[dst row col shift := st ! src row col shift]) nstate))"
  by (simp add: rows_step_def)

lemma rows_loop:
  assumes d: "0 < 8 div n"
    and inj: "\<And>row. row < 8 \<Longrightarrow> inj_on (\<lambda>col. dst row col (row div (8 div n))) {..<n}"
    and sep: "\<And>row row' col col'. row < 8 \<Longrightarrow> row' < 8 \<Longrightarrow> row \<noteq> row' \<Longrightarrow>
               dst row col (row div (8 div n)) \<noteq> dst row' col' (row' div (8 div n))"
    and bound: "\<And>row col. row < 8 \<Longrightarrow> col < n \<Longrightarrow> dst row col (row div (8 div n)) < length buf"
    and r: "r \<le> 8"
  shows "case for_loop 0 r (rows_step n dst src st) (0, buf) of (sh, ns) \<Rightarrow>
           sh = (r - 1) div (8 div n) \<and> length ns = length buf \<and>
           (\<forall>row<r. \<forall>col<n. ns ! dst row col (row div (8 div n)) = st ! src row col (row div (8 div n)))"
  using r
proof (induction r)
  case 0
  then show ?case by (simp add: for_loop_fold)
next
  case (Suc r)
  obtain sh ns where loop: "for_loop 0 r (rows_step n dst src st) (0, buf) = (sh, ns)"
    by (cases "for_loop 0 r (rows_step n dst src st) (0, buf)")
  from Suc loop have sh: "sh = (r - 1) div (8 div n)" and len: "length ns = length buf"
    and old: "\<forall>row<r. \<forall>col<n. ns ! dst row col (row div (8 div n)) = st ! src row col (row div (8 div n))"
    by simp_all
  from Suc.prems have r8: "r < 8" by simp
  let ?s = "r div (8 div n)"
  have shift: "(if r mod (8 div n) = 0 \<and> r > 0 then sh + 1 else sh) = ?s"
  proof (cases r)
    case 0
    then show ?thesis by (simp add: sh)
  next
    case (Suc m)
    then show ?thesis by (simp add: sh div_Suc)
  qed
  let ?ns = "for_loop 0 n (\<lambda>col nstate. nstate[dst r col ?s := st ! src r col ?s]) ns"
  have step: "for_loop 0 (Suc r) (rows_step n dst src st) (0, buf) = (?s, ?ns)"
    by (simp add: for_loop_Suc loop rows_step_apply shift Let_def)
  have sc: "(\<forall>col<n. ?ns ! dst r col ?s = st ! src r col ?s) \<and>
            (\<forall>q. (\<forall>col<n. dst r col ?s \<noteq> q) \<longrightarrow> ?ns ! q = ns ! q)"
    using for_loop_scatter [where f = "\<lambda>col. dst r col ?s" and c = "\<lambda>col. st ! src r col ?s" and n = n and ns = ns]
      inj [OF r8] bound [OF r8] len by simp
  have "?ns ! dst row col (row div (8 div n)) = st ! src row col (row div (8 div n))"
    if "row < Suc r" "col < n" for row col
  proof (cases "row = r")
    case True
    with sc that show ?thesis by simp
  next
    case False
    with that have row: "row < r" by simp
    with r8 have "\<forall>c<n. dst r c ?s \<noteq> dst row col (row div (8 div n))"
      using sep [of r row] False by simp
    with sc have "?ns ! dst row col (row div (8 div n)) = ns ! dst row col (row div (8 div n))"
      by blast
    with old row that show ?thesis by simp
  qed
  then show ?case
    by (simp add: step len)
qed

lemma length_stack_bytes [simp]: "length stack_bytes = 64"
  by (simp add: stack_bytes_def MAX_STATE_BYTES_def)

lemma ShiftRows_rows:
  "ShiftRows be ctx =
     (let state0 = WordsToBytes_Inline be (nb ctx) (state ctx) stack_bytes;
          nstate = snd (for_loop 0 8
             (rows_step (nb ctx) (\<lambda>row col shift. row + (col + shift) mod nb ctx * 8)
                (\<lambda>row col shift. row + col * 8) state0) (0, stack_bytes))
      in ctx\<lparr>state := BytesToWords_Inline be (nb ctx) nstate (state ctx)\<rparr>)"
  by (simp add: ShiftRows_def rows_step_def Let_def split_def)

lemma InvShiftRows_rows:
  "InvShiftRows be ctx =
     (let state0 = WordsToBytes_Inline be (nb ctx) (state ctx) stack_bytes;
          nstate = snd (for_loop 0 8
             (rows_step (nb ctx) (\<lambda>row col shift. row + col * 8)
                (\<lambda>row col shift. row + (col + shift) mod nb ctx * 8) state0) (0, stack_bytes))
      in ctx\<lparr>state := BytesToWords_Inline be (nb ctx) nstate (state ctx)\<rparr>)"
  by (simp add: InvShiftRows_def rows_step_def Let_def split_def)

lemma ShiftRows_fields [simp]:
  "nb (ShiftRows be ctx) = nb ctx" "nk (ShiftRows be ctx) = nk ctx" "nr (ShiftRows be ctx) = nr ctx"
  "round_keys (ShiftRows be ctx) = round_keys ctx"
  by (simp_all add: ShiftRows_rows Let_def)

lemma InvShiftRows_fields [simp]:
  "nb (InvShiftRows be ctx) = nb ctx" "nk (InvShiftRows be ctx) = nk ctx" "nr (InvShiftRows be ctx) = nr ctx"
  "round_keys (InvShiftRows be ctx) = round_keys ctx"
  by (simp_all add: InvShiftRows_rows Let_def)

lemma block_index_bound: "row < 8 \<Longrightarrow> col < n \<Longrightarrow> n \<le> 8 \<Longrightarrow> row + col * 8 < (64::nat)"
  by arith

lemma ShiftRows_bytes:
  assumes n: "nb ctx = 2 \<or> nb ctx = 4 \<or> nb ctx = 8" and len: "length (state ctx) = nb ctx"
  shows "length (state (ShiftRows be ctx)) = nb ctx"
    and "r < 8 \<Longrightarrow> col < nb ctx \<Longrightarrow>
         byte_of r (state (ShiftRows be ctx) ! ((col + r div (8 div nb ctx)) mod nb ctx))
         = byte_of r (state ctx ! col)"
proof -
  let ?n = "nb ctx"
  let ?dst = "\<lambda>row col shift. row + (col + shift) mod ?n * 8"
  let ?src = "\<lambda>row col (shift::nat). row + col * 8"
  from n have n8: "?n \<le> 8" "0 < ?n" "0 < 8 div ?n" by auto
  define st0 where "st0 = WordsToBytes_Inline be ?n (state ctx) stack_bytes"
  have st0: "st0 = words_to_bytes (state ctx) @ drop (8 * ?n) stack_bytes"
    using n8 len by (simp add: st0_def WordsToBytes_Inline_eq)
  obtain sh ns where loop: "for_loop 0 8 (rows_step ?n ?dst ?src st0) (0, stack_bytes) = (sh, ns)"
    by (cases "for_loop 0 8 (rows_step ?n ?dst ?src st0) (0, stack_bytes)")
  have inv: "case for_loop 0 8 (rows_step ?n ?dst ?src st0) (0, stack_bytes) of (sh, ns) \<Rightarrow>
           sh = (8 - 1) div (8 div ?n) \<and> length ns = length stack_bytes \<and>
           (\<forall>row<8. \<forall>col<?n. ns ! ?dst row col (row div (8 div ?n)) = st0 ! ?src row col (row div (8 div ?n)))"
  proof (rule rows_loop)
    show "0 < 8 div ?n" by (rule n8)
    show "inj_on (\<lambda>col. row + (col + row div (8 div ?n)) mod ?n * 8) {..<?n}" for row
      by (rule inj_onI) (auto dest: mod_add_inj)
    show "row + (col + row div (8 div ?n)) mod ?n * 8 \<noteq> row' + (col' + row' div (8 div ?n)) mod ?n * 8"
      if "row < 8" "row' < 8" "row \<noteq> row'" for row row' col col'
      using that by (rule row_sep)
    show "row + (col + row div (8 div ?n)) mod ?n * 8 < length stack_bytes" if "row < 8" for row col
      using block_index_bound [OF that, of "(col + row div (8 div ?n)) mod ?n" ?n] n8 by simp
  qed simp
  with loop have lens: "length ns = 64"
    and get: "\<And>row col. row < 8 \<Longrightarrow> col < ?n \<Longrightarrow>
        ns ! (row + (col + row div (8 div ?n)) mod ?n * 8) = st0 ! (row + col * 8)"
    by simp_all
  have res: "state (ShiftRows be ctx) = bytes_to_words ?n ns"
    using n8 len lens loop
    by (simp add: ShiftRows_rows Let_def st0_def [symmetric] BytesToWords_Inline_eq)
  show "length (state (ShiftRows be ctx)) = nb ctx"
    by (simp add: res)
  show "byte_of r (state (ShiftRows be ctx) ! ((col + r div (8 div nb ctx)) mod nb ctx))
         = byte_of r (state ctx ! col)" if "r < 8" "col < nb ctx"
  proof -
    have "byte_of r (bytes_to_words ?n ns ! ((col + r div (8 div ?n)) mod ?n))
          = ns ! (r + (col + r div (8 div ?n)) mod ?n * 8)"
      using that n8 lens by (intro byte_of_bytes_to_words) simp_all
    also have "\<dots> = st0 ! (r + col * 8)"
      using that by (rule get)
    also have "\<dots> = byte_of r (state ctx ! col)"
      using that len by (simp add: st0 nth_append nth_words_to_bytes)
    finally show ?thesis by (simp add: res)
  qed
qed

lemma InvShiftRows_bytes:
  assumes n: "nb ctx = 2 \<or> nb ctx = 4 \<or> nb ctx = 8" and len: "length (state ctx) = nb ctx"
  shows "length (state (InvShiftRows be ctx)) = nb ctx"
    and "r < 8 \<Longrightarrow> col < nb ctx \<Longrightarrow>
         byte_of r (state (InvShiftRows be ctx) ! col)
         = byte_of r (state ctx ! ((col + r div (8 div nb ctx)) mod nb ctx))"
proof -
  let ?n = "nb ctx"
  let ?src = "\<lambda>row col shift. row + (col + shift) mod ?n * 8"
  let ?dst = "\<lambda>row col (shift::nat). row + col * 8"
  from n have n8: "?n \<le> 8" "0 < ?n" "0 < 8 div ?n" by auto
  define st0 where "st0 = WordsToBytes_Inline be ?n (state ctx) stack_bytes"
  have st0: "st0 = words_to_bytes (state ctx) @ drop (8 * ?n) stack_bytes"
    using n8 len by (simp add: st0_def WordsToBytes_Inline_eq)
  obtain sh ns where loop: "for_loop 0 8 (rows_step ?n ?dst ?src st0) (0, stack_bytes) = (sh, ns)"
    by (cases "for_loop 0 8 (rows_step ?n ?dst ?src st0) (0, stack_bytes)")
  have inv: "case for_loop 0 8 (rows_step ?n ?dst ?src st0) (0, stack_bytes) of (sh, ns) \<Rightarrow>
           sh = (8 - 1) div (8 div ?n) \<and> length ns = length stack_bytes \<and>
           (\<forall>row<8. \<forall>col<?n. ns ! ?dst row col (row div (8 div ?n)) = st0 ! ?src row col (row div (8 div ?n)))"
  proof (rule rows_loop)
    show "0 < 8 div ?n" by (rule n8)
    show "inj_on (\<lambda>col. row + col * 8) {..<?n}" for row :: nat
      by (rule inj_onI) simp
    show "row + col * 8 \<noteq> row' + col' * 8"
      if "row < 8" "row' < 8" "row \<noteq> row'" for row row' col col' :: nat
      using that by (rule row_sep)
    show "row + col * 8 < length stack_bytes" if "row < 8" "col < ?n" for row col
      using block_index_bound [OF that] n8 by simp
  qed simp
  with loop have lens: "length ns = 64"
    and get: "\<And>row col. row < 8 \<Longrightarrow> col < ?n \<Longrightarrow>
        ns ! (row + col * 8) = st0 ! (row + (col + row div (8 div ?n)) mod ?n * 8)"
    by simp_all
  have res: "state (InvShiftRows be ctx) = bytes_to_words ?n ns"
    using n8 len lens loop
    by (simp add: InvShiftRows_rows Let_def st0_def [symmetric] BytesToWords_Inline_eq)
  show "length (state (InvShiftRows be ctx)) = nb ctx"
    by (simp add: res)
  show "byte_of r (state (InvShiftRows be ctx) ! col)
         = byte_of r (state ctx ! ((col + r div (8 div nb ctx)) mod nb ctx))" if "r < 8" "col < nb ctx"
  proof -
    have "byte_of r (bytes_to_words ?n ns ! col) = ns ! (r + col * 8)"
      using that n8 lens by (intro byte_of_bytes_to_words) simp_all
    also have "\<dots> = st0 ! (r + (col + r div (8 div ?n)) mod ?n * 8)"
      using that by (rule get)
    also have "\<dots> = byte_of r (state ctx ! ((col + r div (8 div ?n)) mod ?n))"
    proof -
      have c: "(col + r div (8 div ?n)) mod ?n < ?n" using n8 by simp
      with that have "r + (col + r div (8 div ?n)) mod ?n * 8 < 8 * ?n" by arith
      with that c len show ?thesis
        by (simp add: st0 nth_append nth_words_to_bytes)
    qed
    finally show ?thesis by (simp add: res)
  qed
qed

lemma InvShiftRows_ShiftRows:
  assumes n: "nb ctx = 2 \<or> nb ctx = 4 \<or> nb ctx = 8" and len: "length (state ctx) = nb ctx"
  shows "InvShiftRows be (ShiftRows be ctx) = ctx"
proof -
  let ?c = "ShiftRows be ctx"
  have n': "nb ?c = 2 \<or> nb ?c = 4 \<or> nb ?c = 8" using n by simp
  have len': "length (state ?c) = nb ?c" using ShiftRows_bytes(1) [OF n len] by simp
  have "state (InvShiftRows be ?c) = state ctx"
  proof (rule nth_equalityI)
    show "length (state (InvShiftRows be ?c)) = length (state ctx)"
      using InvShiftRows_bytes(1) [OF n' len'] len by simp
  next
    fix col assume "col < length (state (InvShiftRows be ?c))"
    then have col: "col < nb ctx"
      using InvShiftRows_bytes(1) [OF n' len'] by simp
    show "state (InvShiftRows be ?c) ! col = state ctx ! col"
    proof (rule word_eq_by_bytes)
      fix r :: nat assume r: "r < 8"
      from InvShiftRows_bytes(2) [OF n' len' r] col ShiftRows_bytes(2) [OF n len r col]
      show "byte_of r (state (InvShiftRows be ?c) ! col) = byte_of r (state ctx ! col)"
        by simp
    qed
  qed
  moreover have "InvShiftRows be ?c = ctx\<lparr>state := state (InvShiftRows be ?c)\<rparr>"
    by (simp add: InvShiftRows_rows ShiftRows_rows Let_def)
  ultimately show ?thesis by simp
qed
lemma SubBytes_fields [simp]:
  "nb (SubBytes T ctx) = nb ctx" "nk (SubBytes T ctx) = nk ctx" "nr (SubBytes T ctx) = nr ctx"
  "round_keys (SubBytes T ctx) = round_keys ctx" "length (state (SubBytes T ctx)) = length (state ctx)"
  by (simp_all add: SubBytes_def)

lemma InvSubBytes_fields [simp]:
  "nb (InvSubBytes T ctx) = nb ctx" "nk (InvSubBytes T ctx) = nk ctx" "nr (InvSubBytes T ctx) = nr ctx"
  "round_keys (InvSubBytes T ctx) = round_keys ctx" "length (state (InvSubBytes T ctx)) = length (state ctx)"
  by (simp_all add: InvSubBytes_def)

lemma map_nth_upt: "length xs = n \<Longrightarrow> map (\<lambda>i. f (xs ! i)) [0..<n] = map f xs"
  by (simp add: list_eq_iff_nth_eq)

lemma state_SubBytes:
  "length (state ctx) = nb ctx \<Longrightarrow> state (SubBytes T ctx) = map (sbox_word (sboxes_enc T)) (state ctx)"
  using for_loop_update_map [where g = "\<lambda>i. sbox_word (sboxes_enc T)" and s = "state ctx" and n = "nb ctx"]
  by (simp add: SubBytes_def map_nth_upt)

lemma state_InvSubBytes:
  "length (state ctx) = nb ctx \<Longrightarrow> state (InvSubBytes T ctx) = map (sbox_word (sboxes_dec T)) (state ctx)"
  using for_loop_update_map [where g = "\<lambda>i. sbox_word (sboxes_dec T)" and s = "state ctx" and n = "nb ctx"]
  by (simp add: InvSubBytes_def map_nth_upt)

lemma InvSubBytes_SubBytes:
  assumes "\<And>t x. t < 4 \<Longrightarrow> sboxes_dec T t (sboxes_enc T t x) = x" and "length (state ctx) = nb ctx"
  shows "InvSubBytes T (SubBytes T ctx) = ctx"
proof -
  have "state (InvSubBytes T (SubBytes T ctx)) = state ctx"
    using assms(2) by (simp add: state_InvSubBytes state_SubBytes sbox_word_inverse [of "sboxes_dec T" "sboxes_enc T", OF assms(1)] map_idI)
  moreover have "InvSubBytes T (SubBytes T ctx) = ctx\<lparr>state := state (InvSubBytes T (SubBytes T ctx))\<rparr>"
    by (simp add: InvSubBytes_def SubBytes_def)
  ultimately show ?thesis by simp
qed

lemma for_down_xor: "for_down_to_0 k (\<lambda>b p. p XOR f b) acc = acc XOR xor_sum f (Suc k)"
  by (induction k arbitrary: acc) (simp_all add: xor.assoc xor.commute xor.left_commute)

lemma for_down_to_0_7:
  "for_down_to_0 7 body s = body 0 (body 1 (body 2 (body 3 (body 4 (body 5 (body 6 (body 7 s)))))))"
  by (simp add: eval_nat_numeral)

lemma xor_sum_cong: "(\<And>i. i < n \<Longrightarrow> f i = g i) \<Longrightarrow> xor_sum f n = xor_sum g n"
  by (induction n) simp_all

lemma xor_sum_xor: "xor_sum (\<lambda>i. f i XOR g i) n = xor_sum f n XOR xor_sum g n"
  by (induction n) (simp_all add: xor.assoc xor.commute xor.left_commute)

lemma xor_sum_zero: "xor_sum (\<lambda>i. 0) n = 0"
  by (induction n) simp_all

lemma xor_sum_swap:
  "xor_sum (\<lambda>i. xor_sum (\<lambda>j. f i j) m) n = xor_sum (\<lambda>j. xor_sum (\<lambda>i. f i j) n) m"
  by (induction n) (simp_all add: xor_sum_zero xor_sum_xor)

lemma MultiplyGF_xor_sum_left: "MultiplyGF (xor_sum f n) y = xor_sum (\<lambda>i. MultiplyGF (f i) y) n"
  by (induction n) (simp_all add: MultiplyGF_zero_left MultiplyGF_xor_left)

lemma MultiplyGF_xor_sum_right: "MultiplyGF x (xor_sum f n) = xor_sum (\<lambda>i. MultiplyGF x (f i)) n"
proof -
  have "MultiplyGF x (xor_sum f n) = MultiplyGF (xor_sum f n) x" by (rule MultiplyGF_commute)
  also have "\<dots> = xor_sum (\<lambda>i. MultiplyGF (f i) x) n" by (rule MultiplyGF_xor_sum_left)
  also have "\<dots> = xor_sum (\<lambda>i. MultiplyGF x (f i)) n"
    by (rule xor_sum_cong) (rule MultiplyGF_commute)
  finally show ?thesis .
qed

lemma xor_sum_delta:
  "xor_sum (\<lambda>c. MultiplyGF (s c) (if r = c then 1 else 0)) n = (if r < n then s r else 0)"
  by (induction n) (auto simp add: MultiplyGF_zero_right MultiplyGF_one_right less_Suc_eq)

lemma or_loop_le_word:
  "for_down_to_0 7 (\<lambda>row result. result OR push_bit (row * 8) (ucast (p row :: u8))) (0 :: u64)
     = le_word (map p [0..<8])"
  by (simp add: for_down_to_0_7 le_word_def upt_0_8 push_bit_or or.assoc or.commute or.left_commute)

lemma MatrixMultiply_column_le_word:
  "MatrixMultiply_column M st0 col =
     le_word (map (\<lambda>row. xor_sum (\<lambda>b. MultiplyGF (st0 ! (b + col * 8)) (M row b)) 8) [0..<8])"
proof -
  have p: "for_down_to_0 7 (\<lambda>b product. product XOR MultiplyGF (st0 ! (b + col * 8)) (M row b)) 0
        = xor_sum (\<lambda>b. MultiplyGF (st0 ! (b + col * 8)) (M row b)) 8" for row
    using for_down_xor [where k = 7 and acc = 0 and f = "\<lambda>b. MultiplyGF (st0 ! (b + col * 8)) (M row b)"]
    by simp
  show ?thesis
    by (simp only: MatrixMultiply_column_def Let_def p or_loop_le_word)
qed

lemma byte_of_MatrixMultiply_column:
  "r < 8 \<Longrightarrow> byte_of r (MatrixMultiply_column M st0 col)
     = xor_sum (\<lambda>b. MultiplyGF (st0 ! (b + col * 8)) (M r b)) 8"
  by (simp add: MatrixMultiply_column_le_word byte_of_le_word del: xor_sum.simps)

lemma MatrixMultiply_fields [simp]:
  "nb (MatrixMultiply be M ctx) = nb ctx" "nk (MatrixMultiply be M ctx) = nk ctx"
  "nr (MatrixMultiply be M ctx) = nr ctx" "round_keys (MatrixMultiply be M ctx) = round_keys ctx"
  "length (state (MatrixMultiply be M ctx)) = length (state ctx)"
  by (simp_all add: MatrixMultiply_def Let_def)

lemma MatrixMultiply_bytes:
  assumes n: "nb ctx \<le> 8" and len: "length (state ctx) = nb ctx" and r: "r < 8" and col: "col < nb ctx"
  shows "byte_of r (state (MatrixMultiply be M ctx) ! col)
           = xor_sum (\<lambda>b. MultiplyGF (byte_of b (state ctx ! col)) (M r b)) 8"
proof -
  define st0 where "st0 = WordsToBytes_Inline be (nb ctx) (state ctx) stack_bytes"
  have st0: "st0 = words_to_bytes (state ctx) @ drop (8 * nb ctx) stack_bytes"
    using n len by (simp add: st0_def WordsToBytes_Inline_eq)
  have get: "st0 ! (b + col * 8) = byte_of b (state ctx ! col)" if "b < 8" for b
    using that col len by (simp add: st0 nth_append nth_words_to_bytes)
  have "state (MatrixMultiply be M ctx) ! col = MatrixMultiply_column M st0 col"
    using col len
    by (simp add: MatrixMultiply_def Let_def st0_def [symmetric] nth_for_loop_const)
  then have "byte_of r (state (MatrixMultiply be M ctx) ! col)
      = xor_sum (\<lambda>b. MultiplyGF (st0 ! (b + col * 8)) (M r b)) 8"
    using r by (simp only: byte_of_MatrixMultiply_column)
  also have "\<dots> = xor_sum (\<lambda>b. MultiplyGF (byte_of b (state ctx ! col)) (M r b)) 8"
    by (rule xor_sum_cong) (simp add: get)
  finally show ?thesis .
qed

lemma matrix_inverse_bytes:
  assumes inv: "\<And>c. c < 8 \<Longrightarrow> matrix_product N M r c = (if r = c then 1 else 0)" and r: "r < 8"
  shows "xor_sum (\<lambda>b. MultiplyGF (xor_sum (\<lambda>c. MultiplyGF (s c) (M b c)) 8) (N r b)) 8 = s r"
proof -
  have "xor_sum (\<lambda>b. MultiplyGF (xor_sum (\<lambda>c. MultiplyGF (s c) (M b c)) 8) (N r b)) 8
      = xor_sum (\<lambda>b. xor_sum (\<lambda>c. MultiplyGF (s c) (MultiplyGF (N r b) (M b c))) 8) 8"
    by (simp only: MultiplyGF_xor_sum_left MultiplyGF_assoc MultiplyGF_commute [of "M _ _" "N _ _"])
  also have "\<dots> = xor_sum (\<lambda>c. xor_sum (\<lambda>b. MultiplyGF (s c) (MultiplyGF (N r b) (M b c))) 8) 8"
    by (rule xor_sum_swap)
  also have "\<dots> = xor_sum (\<lambda>c. MultiplyGF (s c) (matrix_product N M r c)) 8"
    by (simp only: MultiplyGF_xor_sum_right matrix_product_def)
  also have "\<dots> = xor_sum (\<lambda>c. MultiplyGF (s c) (if r = c then 1 else 0)) 8"
    by (rule xor_sum_cong) (simp only: inv)
  also have "\<dots> = s r"
    using r by (simp only: xor_sum_delta if_True)
  finally show ?thesis .
qed

lemma MatrixMultiply_inverse:
  assumes inv: "\<And>r c. r < 8 \<Longrightarrow> c < 8 \<Longrightarrow> matrix_product N M r c = (if r = c then 1 else 0)"
    and n: "nb ctx \<le> 8" and len: "length (state ctx) = nb ctx"
  shows "MatrixMultiply be N (MatrixMultiply be M ctx) = ctx"
proof -
  let ?c = "MatrixMultiply be M ctx"
  have n': "nb ?c \<le> 8" and len': "length (state ?c) = nb ?c" using n len by simp_all
  have "state (MatrixMultiply be N ?c) = state ctx"
  proof (rule nth_equalityI)
    show "length (state (MatrixMultiply be N ?c)) = length (state ctx)" by simp
  next
    fix col assume "col < length (state (MatrixMultiply be N ?c))"
    then have col: "col < nb ctx" using len by simp
    then have col': "col < nb ?c" by simp
    show "state (MatrixMultiply be N ?c) ! col = state ctx ! col"
    proof (rule word_eq_by_bytes)
      fix r :: nat assume r: "r < 8"
      have "byte_of r (state (MatrixMultiply be N ?c) ! col)
          = xor_sum (\<lambda>b. MultiplyGF (byte_of b (state ?c ! col)) (N r b)) 8"
        by (rule MatrixMultiply_bytes [OF n' len' r col'])
      also have "\<dots> = xor_sum (\<lambda>b. MultiplyGF
           (xor_sum (\<lambda>c. MultiplyGF (byte_of c (state ctx ! col)) (M b c)) 8) (N r b)) 8"
        by (rule xor_sum_cong) (simp only: MatrixMultiply_bytes [OF n len _ col])
      also have "\<dots> = byte_of r (state ctx ! col)"
        by (rule matrix_inverse_bytes [where s = "\<lambda>c. byte_of c (state ctx ! col)", OF inv [OF r] r])
      finally show "byte_of r (state (MatrixMultiply be N ?c) ! col) = byte_of r (state ctx ! col)" .
    qed
  qed
  moreover have "MatrixMultiply be N ?c = ctx\<lparr>state := state (MatrixMultiply be N ?c)\<rparr>"
    by (simp add: MatrixMultiply_def Let_def)
  ultimately show ?thesis by simp
qed

lemma sboxes_ok_iff: "sboxes_ok T \<longleftrightarrow> (\<forall>t<4. \<forall>x. sboxes_dec T t (sboxes_enc T t x) = x)"
proof
  assume ok: "sboxes_ok T"
  then have all: "\<forall>t n. t < 4 \<longrightarrow> n < 256 \<longrightarrow>
      sboxes_dec T t (sboxes_enc T t (of_nat n)) = (of_nat n :: u8)"
    by (simp add: sboxes_ok_def list_all_iff)
  show "\<forall>t<4. \<forall>x. sboxes_dec T t (sboxes_enc T t x) = x"
  proof (intro allI impI)
    fix t :: nat and x :: u8
    assume t: "t < 4"
    have x: "unat x < 256" using unsigned_less [of x] by simp
    from all [rule_format, OF t x] show "sboxes_dec T t (sboxes_enc T t x) = x" by simp
  qed
next
  assume "\<forall>t<4. \<forall>x. sboxes_dec T t (sboxes_enc T t x) = x"
  then show "sboxes_ok T" by (simp add: sboxes_ok_def list_all_iff)
qed

lemma mds_ok_iff:
  "mds_ok T \<longleftrightarrow> (\<forall>r<8. \<forall>c<8. matrix_product (mds_inv_matrix T) (mds_matrix T) r c = (if r = c then 1 else 0))"
  by (auto simp add: mds_ok_def list_all_iff)

lemma state_ok_SubBytes [simp]: "state_ok (SubBytes T ctx) = state_ok ctx"
  by (simp add: state_ok_def)

lemma state_ok_InvSubBytes [simp]: "state_ok (InvSubBytes T ctx) = state_ok ctx"
  by (simp add: state_ok_def)

lemma state_ok_ShiftRows: "state_ok ctx \<Longrightarrow> state_ok (ShiftRows be ctx)"
  using ShiftRows_bytes(1) [of ctx be] by (simp add: state_ok_def)

lemma state_ok_InvShiftRows: "state_ok ctx \<Longrightarrow> state_ok (InvShiftRows be ctx)"
  using InvShiftRows_bytes(1) [of ctx be] by (simp add: state_ok_def)

lemma state_ok_MatrixMultiply [simp]: "state_ok (MatrixMultiply be M ctx) = state_ok ctx"
  by (simp add: state_ok_def)

lemma EncipherRound_fields [simp]:
  "nb (EncipherRound T be ctx) = nb ctx" "nk (EncipherRound T be ctx) = nk ctx"
  "nr (EncipherRound T be ctx) = nr ctx" "round_keys (EncipherRound T be ctx) = round_keys ctx"
  by (simp_all add: EncipherRound_def MixColumns_def)

lemma DecipherRound_fields [simp]:
  "nb (DecipherRound T be ctx) = nb ctx" "nk (DecipherRound T be ctx) = nk ctx"
  "nr (DecipherRound T be ctx) = nr ctx" "round_keys (DecipherRound T be ctx) = round_keys ctx"
  by (simp_all add: DecipherRound_def InvMixColumns_def)

lemma state_ok_EncipherRound: "state_ok ctx \<Longrightarrow> state_ok (EncipherRound T be ctx)"
  by (simp add: EncipherRound_def MixColumns_def state_ok_ShiftRows)

lemma state_ok_DecipherRound: "state_ok ctx \<Longrightarrow> state_ok (DecipherRound T be ctx)"
  by (simp add: DecipherRound_def InvMixColumns_def state_ok_InvShiftRows)

lemma DecipherRound_EncipherRound:
  assumes T: "tables_ok T" and ok: "state_ok ctx"
  shows "DecipherRound T be (EncipherRound T be ctx) = ctx"
proof -
  let ?a = "SubBytes T ctx"
  let ?b = "ShiftRows be ?a"
  from ok have a: "state_ok ?a" by simp
  then have b: "state_ok ?b" by (rule state_ok_ShiftRows)
  from T have mds: "\<And>r c. r < 8 \<Longrightarrow> c < 8 \<Longrightarrow>
      matrix_product (mds_inv_matrix T) (mds_matrix T) r c = (if r = c then 1 else 0)"
    by (simp add: tables_ok_def mds_ok_iff)
  from T have sb: "\<And>t x. t < 4 \<Longrightarrow> sboxes_dec T t (sboxes_enc T t x) = x"
    by (simp add: tables_ok_def sboxes_ok_iff)
  have "InvMixColumns T be (MixColumns T be ?b) = ?b"
    unfolding InvMixColumns_def MixColumns_def
    using b by (intro MatrixMultiply_inverse mds) (auto simp add: state_ok_def)
  moreover have "InvShiftRows be ?b = ?a"
    using a by (intro InvShiftRows_ShiftRows) (simp_all add: state_ok_def)
  moreover have "InvSubBytes T ?a = ctx"
    using ok by (intro InvSubBytes_SubBytes sb) (simp_all add: state_ok_def)
  ultimately show ?thesis
    by (simp add: DecipherRound_def EncipherRound_def)
qed

lemma xor_sum_8: "xor_sum f 8 = f 0 XOR f 1 XOR f 2 XOR f 3 XOR f 4 XOR f 5 XOR f 6 XOR f 7"
  by (simp add: eval_nat_numeral xor.assoc)

lemma nat8: "(8::nat) = Suc (Suc (Suc (Suc (Suc (Suc (Suc (Suc 0)))))))"
  by simp

lemma gmul_unroll: "gmul 8 x y =
   (if bit y 0 then x else 0) XOR (if bit y 1 then xtime x else 0) XOR
   (if bit y 2 then xtime (xtime x) else 0) XOR
   (if bit y 3 then xtime (xtime (xtime x)) else 0) XOR
   (if bit y 4 then xtime (xtime (xtime (xtime x))) else 0) XOR
   (if bit y 5 then xtime (xtime (xtime (xtime (xtime x)))) else 0) XOR
   (if bit y 6 then xtime (xtime (xtime (xtime (xtime (xtime x))))) else 0) XOR
   (if bit y 7 then xtime (xtime (xtime (xtime (xtime (xtime (xtime x)))))) else 0)"
  apply (subst nat8)
  apply (simp only: gmul.simps bit_drop_bit_eq drop_bit_drop_bit)
  apply (simp add: xor.assoc eval_nat_numeral split del: if_split cong: if_cong)
  done

lemma gmul_small:
  "gmul 8 x 1 = x"
  "gmul 8 x 4 = xtime (xtime x)"
  "gmul 8 x 5 = x XOR xtime (xtime x)"
  "gmul 8 x 6 = xtime x XOR xtime (xtime x)"
  "gmul 8 x 7 = x XOR xtime x XOR xtime (xtime x)"
  "gmul 8 x 8 = xtime (xtime (xtime x))"
  by (simp_all add: gmul_unroll del: gmul.simps)

lemma xtime_numeral: "xtime (numeral n) = (if bit (numeral n :: u8) 7 then push_bit 1 (numeral n) XOR 0x1d else push_bit 1 (numeral n))"
  by (simp add: xtime_def)

lemma xtime_1: "xtime 1 = 2"
  by (simp add: xtime_def)

lemmas mds_eval =
  upt_0_8 matrix_product_def xor_sum_8 mds_rows_def mds_inv_rows_def MultiplyGF_gmul
  gmul_small xtime_numeral

lemma mds_product_row_0:
  "list_all (\<lambda>c. matrix_product (\<lambda>r c. mds_inv_rows ! r ! c) (\<lambda>r c. mds_rows ! r ! c) 0 c
     = (if 0 = c then 1 else 0)) [0..<8]"
  by (simp add: mds_eval del: gmul.simps xor_sum.simps)

lemma mds_product_row_1:
  "list_all (\<lambda>c. matrix_product (\<lambda>r c. mds_inv_rows ! r ! c) (\<lambda>r c. mds_rows ! r ! c) 1 c
     = (if 1 = c then 1 else 0)) [0..<8]"
  by (simp add: mds_eval del: gmul.simps xor_sum.simps)

lemma mds_product_row_2:
  "list_all (\<lambda>c. matrix_product (\<lambda>r c. mds_inv_rows ! r ! c) (\<lambda>r c. mds_rows ! r ! c) 2 c
     = (if 2 = c then 1 else 0)) [0..<8]"
  by (simp add: mds_eval del: gmul.simps xor_sum.simps)

lemma mds_product_row_3:
  "list_all (\<lambda>c. matrix_product (\<lambda>r c. mds_inv_rows ! r ! c) (\<lambda>r c. mds_rows ! r ! c) 3 c
     = (if 3 = c then 1 else 0)) [0..<8]"
  by (simp add: mds_eval del: gmul.simps xor_sum.simps)

lemma mds_product_row_4:
  "list_all (\<lambda>c. matrix_product (\<lambda>r c. mds_inv_rows ! r ! c) (\<lambda>r c. mds_rows ! r ! c) 4 c
     = (if 4 = c then 1 else 0)) [0..<8]"
  by (simp add: mds_eval del: gmul.simps xor_sum.simps)

lemma mds_product_row_5:
  "list_all (\<lambda>c. matrix_product (\<lambda>r c. mds_inv_rows ! r ! c) (\<lambda>r c. mds_rows ! r ! c) 5 c
     = (if 5 = c then 1 else 0)) [0..<8]"
  by (simp add: mds_eval del: gmul.simps xor_sum.simps)

lemma mds_product_row_6:
  "list_all (\<lambda>c. matrix_product (\<lambda>r c. mds_inv_rows ! r ! c) (\<lambda>r c. mds_rows ! r ! c) 6 c
     = (if 6 = c then 1 else 0)) [0..<8]"
  by (simp add: mds_eval del: gmul.simps xor_sum.simps)

lemma mds_product_row_7:
  "list_all (\<lambda>c. matrix_product (\<lambda>r c. mds_inv_rows ! r ! c) (\<lambda>r c. mds_rows ! r ! c) 7 c
     = (if 7 = c then 1 else 0)) [0..<8]"
  by (simp add: mds_eval del: gmul.simps xor_sum.simps)

lemma list_all_upt_0_8:
  "list_all P [0..<8] = (P 0 \<and> P 1 \<and> P 2 \<and> P 3 \<and> P 4 \<and> P 5 \<and> P 6 \<and> P 7)"
  by (simp add: upt_0_8)

lemma sample_tables_ok: "tables_ok sample_tables"
proof -
  have "sboxes_ok sample_tables"
    by (simp add: sboxes_ok_iff sample_tables_def)
  moreover have "mds_ok sample_tables"
    unfolding mds_ok_def sample_tables_def tables.simps
    by (subst list_all_upt_0_8)
       (intro conjI mds_product_row_0 mds_product_row_1 mds_product_row_2 mds_product_row_3
          mds_product_row_4 mds_product_row_5 mds_product_row_6 mds_product_row_7)
  ultimately show ?thesis by (simp add: tables_ok_def)
qed

lemma state_AddRoundKey:
  "length (state ctx) = nb ctx \<Longrightarrow>
   state (AddRoundKey round ctx) = map (\<lambda>i. state ctx ! i + round_keys ctx ! round ! i) [0..<nb ctx]"
  using for_loop_update_map [where g = "\<lambda>i x. x + round_keys ctx ! round ! i" and s = "state ctx"]
  by (simp add: AddRoundKey_def)

lemma state_SubRoundKey:
  "length (state ctx) = nb ctx \<Longrightarrow>
   state (SubRoundKey round ctx) = map (\<lambda>i. state ctx ! i - round_keys ctx ! round ! i) [0..<nb ctx]"
  using for_loop_update_map [where g = "\<lambda>i x. x - round_keys ctx ! round ! i" and s = "state ctx"]
  by (simp add: SubRoundKey_def)

lemma state_XorRoundKey:
  "length (state ctx) = nb ctx \<Longrightarrow>
   state (XorRoundKey round ctx) = map (\<lambda>i. state ctx ! i XOR round_keys ctx ! round ! i) [0..<nb ctx]"
  using for_loop_update_map [where g = "\<lambda>i x. x XOR round_keys ctx ! round ! i" and s = "state ctx"]
  by (simp add: XorRoundKey_def)

lemma AddRoundKey_fields [simp]:
  "nb (AddRoundKey r ctx) = nb ctx" "nk (AddRoundKey r ctx) = nk ctx" "nr (AddRoundKey r ctx) = nr ctx"
  "round_keys (AddRoundKey r ctx) = round_keys ctx"
  "length (state (AddRoundKey r ctx)) = length (state ctx)"
  by (simp_all add: AddRoundKey_def)

lemma SubRoundKey_fields [simp]:
  "nb (SubRoundKey r ctx) = nb ctx" "nk (SubRoundKey r ctx) = nk ctx" "nr (SubRoundKey r ctx) = nr ctx"
  "round_keys (SubRoundKey r ctx) = round_keys ctx"
  "length (state (SubRoundKey r ctx)) = length (state ctx)"
  by (simp_all add: SubRoundKey_def)

lemma XorRoundKey_fields [simp]:
  "nb (XorRoundKey r ctx) = nb ctx" "nk (XorRoundKey r ctx) = nk ctx" "nr (XorRoundKey r ctx) = nr ctx"
  "round_keys (XorRoundKey r ctx) = round_keys ctx"
  "length (state (XorRoundKey r ctx)) = length (state ctx)"
  by (simp_all add: XorRoundKey_def)

lemma SubRoundKey_AddRoundKey:
  assumes "length (state ctx) = nb ctx"
  shows "SubRoundKey round (AddRoundKey round ctx) = ctx"
proof -
  have "state (SubRoundKey round (AddRoundKey round ctx)) = state ctx"
    using assms by (intro nth_equalityI) (simp_all add: state_SubRoundKey state_AddRoundKey)
  then show ?thesis
    by (simp add: SubRoundKey_def AddRoundKey_def)
qed

lemma XorRoundKey_XorRoundKey:
  assumes "length (state ctx) = nb ctx"
  shows "XorRoundKey round (XorRoundKey round ctx) = ctx"
proof -
  have "state (XorRoundKey round (XorRoundKey round ctx)) = state ctx"
    using assms by (intro nth_equalityI) (simp_all add: state_XorRoundKey xor.assoc)
  then show ?thesis
    by (simp add: XorRoundKey_def)
qed

lemma KalynaInit_config_cases:
  "KalynaInit_config b k =
     (if (b, k) = (128, 128) then Some (2, 2, 10)
      else if (b, k) = (128, 256) then Some (2, 4, 14)
      else if (b, k) = (256, 256) then Some (4, 4, 14)
      else if (b, k) = (256, 512) then Some (4, 8, 18)
      else if (b, k) = (512, 512) then Some (8, 8, 18)
      else None)"
  by (simp add: KalynaInit_config_def kBLOCK_128_def kBLOCK_256_def kBLOCK_512_def
      kKEY_128_def kKEY_256_def kKEY_512_def kNB_128_def kNB_256_def kNB_512_def
      kNK_128_def kNK_256_def kNK_512_def kNR_128_def kNR_256_def kNR_512_def kBITS_IN_WORD_def)

lemma KalynaInit_invalid:
  assumes "(b, k) \<notin> set valid_configurations"
  shows "KalynaInit alloc_ok b k = None"
proof -
  from assms have "KalynaInit_config b k = None"
    by (simp add: KalynaInit_config_cases valid_configurations_def)
  then show ?thesis
    by (simp add: KalynaInit_def)
qed

lemma KalynaInit_valid:
  assumes "\<And>i. alloc_ok i"
  shows "KalynaInit alloc_ok b k =
     map_option (\<lambda>(n, m, r). \<lparr>nb = n, nk = m, nr = r, state = replicate n 0,
                                round_keys = replicate (r + 1) (replicate n 0)\<rparr>)
       (KalynaInit_config b k)"
  using assms by (simp add: KalynaInit_def list_all_iff split: option.split)

lemma for_loop_Suc_from: "i \<le> n \<Longrightarrow> for_loop i (Suc n) body s = body n (for_loop i n body s)"
  by (simp add: for_loop_fold)

lemma for_loop_empty: "n \<le> i \<Longrightarrow> for_loop i n body s = s"
  by (simp add: for_loop_fold)

lemma for_loop_invariant:
  assumes "\<And>i s. P s \<Longrightarrow> P (body i s)" and "P s"
  shows "P (for_loop i n body s)"
proof -
  have "P (fold body xs s)" for xs
    using assms(2) by (induction xs arbitrary: s) (simp_all add: assms(1))
  then show ?thesis by (simp add: for_loop_fold)
qed

lemma state_ok_AddRoundKey [simp]: "state_ok (AddRoundKey r ctx) = state_ok ctx"
  by (simp add: state_ok_def)

lemma state_ok_SubRoundKey [simp]: "state_ok (SubRoundKey r ctx) = state_ok ctx"
  by (simp add: state_ok_def)

lemma state_ok_XorRoundKey [simp]: "state_ok (XorRoundKey r ctx) = state_ok ctx"
  by (simp add: state_ok_def)

lemma encipher_loop_state_ok:
  "state_ok ctx \<Longrightarrow>
   state_ok (for_loop i n (\<lambda>round ctx. XorRoundKey round (EncipherRound T be ctx)) ctx)"
  by (rule for_loop_invariant) (simp_all add: state_ok_EncipherRound)

lemma encipher_loop_fields:
  "nb (for_loop i n (\<lambda>round ctx. XorRoundKey round (EncipherRound T be ctx)) ctx) = nb ctx \<and>
   nk (for_loop i n (\<lambda>round ctx. XorRoundKey round (EncipherRound T be ctx)) ctx) = nk ctx \<and>
   nr (for_loop i n (\<lambda>round ctx. XorRoundKey round (EncipherRound T be ctx)) ctx) = nr ctx \<and>
   round_keys (for_loop i n (\<lambda>round ctx. XorRoundKey round (EncipherRound T be ctx)) ctx)
     = round_keys ctx"
  by (rule for_loop_invariant [where P = "\<lambda>c. nb c = nb ctx \<and> nk c = nk ctx \<and> nr c = nr ctx \<and>
        round_keys c = round_keys ctx"]) simp_all

lemma decipher_loop_encipher_loop:
  assumes T: "tables_ok T" and ok: "state_ok ctx"
  shows "for_down_above_0 k (\<lambda>round ctx. XorRoundKey round (DecipherRound T be ctx))
           (EncipherRound T be
              (for_loop 1 (Suc k) (\<lambda>round ctx. XorRoundKey round (EncipherRound T be ctx)) ctx))
         = EncipherRound T be ctx"
proof (induction k)
  case 0
  show ?case by (simp add: for_loop_empty)
next
  case (Suc k)
  let ?e = "\<lambda>round ctx. XorRoundKey round (EncipherRound T be ctx)"
  let ?x = "for_loop 1 (Suc k) ?e ctx"
  have x: "state_ok ?x" using ok by (rule encipher_loop_state_ok)
  then have ex: "state_ok (EncipherRound T be ?x)" by (rule state_ok_EncipherRound)
  have step: "for_loop (Suc 0) (Suc (Suc k)) ?e ctx = XorRoundKey (Suc k) (EncipherRound T be ?x)"
    by (simp add: for_loop_Suc_from)
  have "XorRoundKey (Suc k)
          (DecipherRound T be (EncipherRound T be (XorRoundKey (Suc k) (EncipherRound T be ?x))))
        = EncipherRound T be ?x"
    using T ex by (simp add: DecipherRound_EncipherRound XorRoundKey_XorRoundKey state_ok_def)
  then show ?case
    using Suc.IH by (simp add: step)
qed

lemma memcpy_whole: "length dst = n \<Longrightarrow> length src = n \<Longrightarrow> memcpy dst 0 src n = src"
  by (simp add: memcpy_def)

lemma KalynaDecipher_KalynaEncipher:
  assumes T: "tables_ok T" and ok: "state_ok ctx" and r: "0 < nr ctx" and P: "length P = nb ctx"
  shows "KalynaDecipher T be (snd (KalynaEncipher T be P ctx)) (fst (KalynaEncipher T be P ctx))
         = (ctx\<lparr>state := P\<rparr>, P)"
proof -
  let ?e = "\<lambda>round ctx. XorRoundKey round (EncipherRound T be ctx)"
  let ?d = "\<lambda>round ctx. XorRoundKey round (DecipherRound T be ctx)"
  define c0 where "c0 = ctx\<lparr>state := P\<rparr>"
  define c1 where "c1 = AddRoundKey 0 c0"
  define c2 where "c2 = for_loop (Suc 0) (nr ctx) ?e c1"
  define c3 where "c3 = EncipherRound T be c2"
  define c4 where "c4 = AddRoundKey (nr ctx) c3"
  from ok P have ok0: "state_ok c0" by (simp add: c0_def state_ok_def)
  then have ok1: "state_ok c1" by (simp add: c1_def)
  then have ok2: "state_ok c2" unfolding c2_def by (rule encipher_loop_state_ok)
  then have ok3: "state_ok c3" unfolding c3_def by (rule state_ok_EncipherRound)
  then have ok4: "state_ok c4" by (simp add: c4_def)
  have f0: "nb c0 = nb ctx" "nr c0 = nr ctx" by (simp_all add: c0_def)
  have f1: "nb c1 = nb ctx" "nr c1 = nr ctx" by (simp_all add: c1_def c0_def)
  have f2: "nb c2 = nb ctx" "nr c2 = nr ctx"
    using encipher_loop_fields [of "Suc 0" "nr ctx" T be c1] by (simp_all add: c2_def f1)
  have f3: "nb c3 = nb ctx" "nr c3 = nr ctx" by (simp_all add: c3_def f2)
  have f4: "nb c4 = nb ctx" "nr c4 = nr ctx" by (simp_all add: c4_def f3)
  have enc: "KalynaEncipher T be P ctx = (c4, state c4)"
    using ok P ok4 f4
    by (simp add: KalynaEncipher_def Let_def memcpy_whole state_ok_def
        c0_def [symmetric] f0 c1_def [symmetric] f1 c2_def [symmetric] f2 c3_def [symmetric] f3
        c4_def [symmetric])
  have load: "c4\<lparr>state := memcpy (state c4) 0 (state c4) (nb c4)\<rparr> = c4"
    using ok4 by (simp add: memcpy_whole state_ok_def)
  have s1: "SubRoundKey (nr c4) c4 = c3"
    using ok3 by (simp add: f3 f4 c4_def SubRoundKey_AddRoundKey state_ok_def)
  from r obtain k where k: "nr ctx = Suc k" by (cases "nr ctx") simp_all
  have s2: "for_down_above_0 (nr c3 - 1) ?d c3 = EncipherRound T be c1"
  proof -
    have n: "nr c3 - 1 = k" by (simp add: f3 k)
    have c3: "c3 = EncipherRound T be (for_loop 1 (Suc k) ?e c1)"
      by (simp add: c3_def c2_def k)
    show ?thesis
      unfolding n by (subst c3) (rule decipher_loop_encipher_loop [OF T ok1])
  qed
  have s3: "DecipherRound T be (EncipherRound T be c1) = c1"
    using T ok1 by (rule DecipherRound_EncipherRound)
  have s4: "SubRoundKey 0 c1 = c0"
    using ok0 by (simp add: c1_def SubRoundKey_AddRoundKey state_ok_def)
  have "KalynaDecipher T be (state c4) c4 = (c0, take (nb c0) (state c0))"
    unfolding KalynaDecipher_def Let_def load s1 s2 s3 s4 ..
  also have "\<dots> = (ctx\<lparr>state := P\<rparr>, P)"
    using P by (simp add: c0_def)
  finally show ?thesis by (simp add: enc)
qed

lemma AddRoundKeyExpand_fields [simp]:
  "nb (AddRoundKeyExpand v ctx) = nb ctx" "nk (AddRoundKeyExpand v ctx) = nk ctx"
  "nr (AddRoundKeyExpand v ctx) = nr ctx" "round_keys (AddRoundKeyExpand v ctx) = round_keys ctx"
  "length (state (AddRoundKeyExpand v ctx)) = length (state ctx)"
  by (simp_all add: AddRoundKeyExpand_def)

lemma XorRoundKeyExpand_fields [simp]:
  "nb (XorRoundKeyExpand v ctx) = nb ctx" "nk (XorRoundKeyExpand v ctx) = nk ctx"
  "nr (XorRoundKeyExpand v ctx) = nr ctx" "round_keys (XorRoundKeyExpand v ctx) = round_keys ctx"
  "length (state (XorRoundKeyExpand v ctx)) = length (state ctx)"
  by (simp_all add: XorRoundKeyExpand_def)

lemma state_ok_AddRoundKeyExpand [simp]: "state_ok (AddRoundKeyExpand v ctx) = state_ok ctx"
  by (simp add: state_ok_def)

lemma state_ok_XorRoundKeyExpand [simp]: "state_ok (XorRoundKeyExpand v ctx) = state_ok ctx"
  by (simp add: state_ok_def)

lemma length_stack_words [simp]: "length stack_words = 8"
  by (simp add: stack_words_def)

lemma same_config_refl: "ctx_ok ctx \<Longrightarrow> same_config ctx ctx"
  by (simp add: same_config_def)

lemma same_config_EncipherRound:
  "same_config ctx c \<Longrightarrow> same_config ctx (EncipherRound T be c)"
  by (auto simp add: same_config_def ctx_ok_def state_ok_EncipherRound)

lemma same_config_AddRoundKeyExpand:
  "same_config ctx c \<Longrightarrow> same_config ctx (AddRoundKeyExpand v c)"
  by (auto simp add: same_config_def ctx_ok_def)

lemma same_config_XorRoundKeyExpand:
  "same_config ctx c \<Longrightarrow> same_config ctx (XorRoundKeyExpand v c)"
  by (auto simp add: same_config_def ctx_ok_def)

lemma same_config_state:
  "same_config ctx c \<Longrightarrow> length s = nb ctx \<Longrightarrow> same_config ctx (c\<lparr>state := s\<rparr>)"
  by (auto simp add: same_config_def ctx_ok_def state_ok_def)

lemma same_config_round_keys:
  "same_config ctx c \<Longrightarrow> length row = nb ctx \<Longrightarrow>
   same_config ctx (c\<lparr>round_keys := (round_keys c)[i := row]\<rparr>)"
  by (auto simp add: same_config_def ctx_ok_def state_ok_def list_all_iff dest: set_update_subset_insert [THEN subsetD])

lemma same_config_length_state: "same_config ctx c \<Longrightarrow> length (state c) = nb ctx"
  by (simp add: same_config_def ctx_ok_def state_ok_def)

lemma same_config_nb: "same_config ctx c \<Longrightarrow> nb c = nb ctx"
  by (simp add: same_config_def)

lemma length_memcpy_state:
  "length s = n \<Longrightarrow> length (memcpy s 0 src n) = (if n \<le> length src then n else length src)"
  by (simp add: memcpy_def)

lemma KeyExpandKt_same_config:
  assumes "ctx_ok ctx"
  shows "same_config ctx (fst (KeyExpandKt T be key ctx kt))"
proof -
  from assms have len: "length (state ctx) = nb ctx"
    by (simp add: ctx_ok_def state_ok_def)
  show ?thesis
    unfolding KeyExpandKt_def Let_def split_def fst_conv
    by (intro same_config_EncipherRound same_config_AddRoundKeyExpand same_config_XorRoundKeyExpand
          same_config_state same_config_refl assms)
       (simp_all add: len memcpy_def)
qed

lemma length_KeyExpandKt:
  assumes "ctx_ok ctx" and "length kt = 8"
  shows "length (snd (KeyExpandKt T be key ctx kt)) = 8"
proof -
  let ?c = "fst (KeyExpandKt T be key ctx kt)"
  have "snd (KeyExpandKt T be key ctx kt) = memcpy kt 0 (state ?c) (nb ?c)"
    by (simp add: KeyExpandKt_def Let_def split_def)
  moreover from KeyExpandKt_same_config [OF assms(1), of T be key kt]
  have "length (state ?c) = nb ctx" "nb ?c = nb ctx"
    by (simp_all add: same_config_length_state same_config_nb)
  moreover from assms(1) have "nb ctx \<le> 8"
    by (auto simp add: ctx_ok_def state_ok_def)
  ultimately show ?thesis
    using assms(2) by (simp add: memcpy_def)
qed

lemma derive_vars [simp]:
  "ev_round (KeyExpandEven_derive T be kt off v) = ev_round v"
  "ev_tmv (KeyExpandEven_derive T be kt off v) = ev_tmv v"
  "ev_initial_data (KeyExpandEven_derive T be kt off v) = ev_initial_data v"
  "nb (ev_ctx (KeyExpandEven_derive T be kt off v)) = nb (ev_ctx v)"
  "nk (ev_ctx (KeyExpandEven_derive T be kt off v)) = nk (ev_ctx v)"
  "nr (ev_ctx (KeyExpandEven_derive T be kt off v)) = nr (ev_ctx v)"
  by (simp_all add: KeyExpandEven_derive_def Let_def)

lemma derive_inv:
  assumes inv: "even_inv ctx v" and kt: "length kt = 8" and n: "nb ctx \<le> 8"
    and off: "off + nb ctx \<le> 8"
  shows "even_inv ctx (KeyExpandEven_derive T be kt off v)"
proof -
  from inv have sc: "same_config ctx (ev_ctx v)" and len: "length (ev_tmv v) = 8"
    "length (ev_initial_data v) = 8" "length (ev_kt_round v) = 8"
    and r: "ev_round v \<le> nr ctx" "even (ev_round v)"
    by (simp_all add: even_inv_def)
  from sc have nbc: "nb (ev_ctx v) = nb ctx" and st: "length (state (ev_ctx v)) = nb ctx"
    by (simp_all add: same_config_nb same_config_length_state)
  from sc r have row: "length (round_keys (ev_ctx v) ! ev_round v) = nb ctx"
    by (simp add: same_config_def ctx_ok_def list_all_length)
  define c1 where "c1 = AddRoundKeyExpand (ev_tmv v)
      ((ev_ctx v)\<lparr>state := memcpy (state (ev_ctx v)) 0 kt (nb (ev_ctx v))\<rparr>)"
  have sc1: "same_config ctx c1"
    unfolding c1_def using sc kt n st nbc
    by (intro same_config_AddRoundKeyExpand same_config_state) (simp_all add: memcpy_def)
  define ktr where "ktr = memcpy (ev_kt_round v) 0 (state c1) (nb c1)"
  have ktr: "length ktr = 8"
    using sc1 len n by (simp add: ktr_def memcpy_def same_config_nb same_config_length_state)
  define c2 where "c2 = AddRoundKeyExpand ktr (EncipherRound T be (XorRoundKeyExpand ktr
      (EncipherRound T be (AddRoundKeyExpand ktr
        (c1\<lparr>state := memcpy (state c1) 0 (drop off (ev_initial_data v)) (nb c1)\<rparr>)))))"
  have sc2: "same_config ctx c2"
    unfolding c2_def using sc1 len off
    by (intro same_config_AddRoundKeyExpand same_config_EncipherRound
          same_config_XorRoundKeyExpand same_config_state)
       (simp_all add: memcpy_def same_config_nb same_config_length_state)
  have rk2: "round_keys c2 = round_keys (ev_ctx v)"
    by (simp add: c2_def c1_def)
  have res: "KeyExpandEven_derive T be kt off v =
      v\<lparr>ev_kt_round := ktr,
        ev_ctx := c2\<lparr>round_keys := (round_keys c2)[ev_round v :=
                     memcpy (round_keys c2 ! ev_round v) 0 (state c2) (nb c2)]\<rparr>\<rparr>"
    by (simp add: KeyExpandEven_derive_def Let_def c1_def ktr_def c2_def)
  have "same_config ctx (c2\<lparr>round_keys := (round_keys c2)[ev_round v :=
                     memcpy (round_keys c2 ! ev_round v) 0 (state c2) (nb c2)]\<rparr>)"
    using sc2 row
    by (intro same_config_round_keys)
       (simp_all add: rk2 memcpy_def same_config_nb same_config_length_state)
  with len ktr r show ?thesis
    by (simp add: res even_inv_def)
qed

lemma length_ShiftLeft [simp]: "length (ShiftLeft n v) = length v"
  by (simp add: ShiftLeft_def)

lemma nth_ShiftLeft:
  "j < length v \<Longrightarrow> ShiftLeft n v ! j = (if j < n then push_bit 1 (v ! j) else v ! j)"
  using nth_for_loop_update [where g = "\<lambda>i. push_bit 1" and s = v and n = n and j = j]
  by (simp add: ShiftLeft_def)

lemma take_ShiftLeft: "n \<le> length v \<Longrightarrow> take n (ShiftLeft n v) = map (push_bit 1) (take n v)"
  by (rule nth_equalityI) (simp_all add: nth_ShiftLeft)

lemma drop_ShiftLeft: "drop n (ShiftLeft n v) = drop n v"
  by (rule nth_equalityI) (simp_all add: nth_ShiftLeft)

lemma length_for_loop_scatter_from [simp]:
  "length (for_loop i n (\<lambda>i s. s[f i := h i s]) s) = length s"
  by (rule for_loop_invariant [where P = "\<lambda>w. length w = length s"]) simp_all

lemma nth_shift_loop:
  "j < length v \<Longrightarrow> n \<le> length v \<Longrightarrow>
   for_loop (Suc 0) n (\<lambda>i v. v[i - Suc 0 := v ! i]) v ! j = (if Suc j < n then v ! Suc j else v ! j)"
proof (induction n arbitrary: j)
  case 0
  then show ?case by (simp add: for_loop_empty)
next
  case (Suc n)
  show ?case
  proof (cases "n = 0")
    case True
    then show ?thesis by (simp add: for_loop_empty)
  next
    case False
    then have n: "Suc 0 \<le> n" by simp
    from Suc.prems have nv: "n < length v" "n \<le> length v" by simp_all
    have step: "for_loop (Suc 0) (Suc n) (\<lambda>i v. v[i - Suc 0 := v ! i]) v
        = (for_loop (Suc 0) n (\<lambda>i v. v[i - Suc 0 := v ! i]) v)
            [n - Suc 0 := for_loop (Suc 0) n (\<lambda>i v. v[i - Suc 0 := v ! i]) v ! n]"
      using n by (simp add: for_loop_Suc_from)
    from Suc.IH [OF nv(1) nv(2)] Suc.IH [OF Suc.prems(1) nv(2)] False Suc.prems show ?thesis
      by (auto simp add: step nth_list_update)
  qed
qed

lemma length_Rotate [simp]: "length (Rotate n v) = length v"
  by (simp add: Rotate_def Let_def)

lemma nth_Rotate:
  assumes "0 < n" "n \<le> length v" "j < length v"
  shows "Rotate n v ! j = (if Suc j < n then v ! Suc j else if Suc j = n then v ! 0 else v ! j)"
  using assms by (auto simp add: Rotate_def Let_def nth_list_update nth_shift_loop)

lemma take_Rotate:
  assumes "0 < n" "n \<le> length v"
  shows "take n (Rotate n v) = rotate1 (take n v)"
proof (rule nth_equalityI)
  show "length (take n (Rotate n v)) = length (rotate1 (take n v))"
    using assms by simp
next
  fix j assume "j < length (take n (Rotate n v))"
  with assms have j: "j < n" by simp
  from assms obtain x xs where xs: "take n v = x # xs"
    by (cases "take n v") auto
  then have lxs: "length xs = n - 1" using assms by (metis length_Cons length_take min.absorb2 diff_Suc_1)
  have "rotate1 (take n v) ! j = (if Suc j < n then v ! Suc j else v ! 0)"
  proof (cases "Suc j < n")
    case True
    then have "j < length xs" using lxs by simp
    then have "(xs @ [x]) ! j = xs ! j" by (simp add: nth_append)
    also have "xs ! j = (x # xs) ! Suc j" by simp
    also have "\<dots> = v ! Suc j" using True by (simp add: xs [symmetric])
    finally show ?thesis using True by (simp add: xs)
  next
    case False
    with j have "j = n - 1" by simp
    then have "(xs @ [x]) ! j = x" using lxs by (simp add: nth_append)
    also have "x = (x # xs) ! 0" by simp
    also have "\<dots> = v ! 0" using assms by (simp add: xs [symmetric])
    finally show ?thesis using False by (simp add: xs)
  qed
  with assms j show "take n (Rotate n v) ! j = rotate1 (take n v) ! j"
    by (auto simp add: nth_Rotate)
qed

lemma drop_Rotate:
  assumes "0 < n" "n \<le> length v"
  shows "drop n (Rotate n v) = drop n v"
  using assms by (intro nth_equalityI) (simp_all add: nth_Rotate)

lemma KeyExpandEven_iteration_cases:
  "KeyExpandEven_iteration T be kt v =
     (let n = nb (ev_ctx v); r = ev_round v; v1 = KeyExpandEven_derive T be kt 0 v in
      if nr (ev_ctx v) = r then (True, v1)
      else if nk (ev_ctx v) \<noteq> n then
        let v2 = KeyExpandEven_derive T be kt n
                   (v1\<lparr>ev_round := r + 2, ev_tmv := ShiftLeft n (ev_tmv v)\<rparr>)
        in if nr (ev_ctx v) = r + 2 then (True, v2)
           else (False, v2\<lparr>ev_round := r + 4, ev_tmv := ShiftLeft n (ShiftLeft n (ev_tmv v)),
                            ev_initial_data := Rotate (nk (ev_ctx v)) (ev_initial_data v)\<rparr>)
      else (False, v1\<lparr>ev_round := r + 2, ev_tmv := ShiftLeft n (ev_tmv v),
                       ev_initial_data := Rotate (nk (ev_ctx v)) (ev_initial_data v)\<rparr>))"
  by (simp add: KeyExpandEven_iteration_def Let_def)

lemma config_ok_facts:
  assumes "config_ok ctx"
  shows "nb ctx \<le> 8" "even (nr ctx)" "0 < nr ctx" "nk ctx \<noteq> nb ctx \<Longrightarrow> nb ctx + nb ctx \<le> 8"
    "0 < nk ctx" "nk ctx \<le> 8" "nb ctx \<le> nk ctx" "nb ctx = 2 \<or> nb ctx = 4 \<or> nb ctx = 8"
  using assms by (auto simp add: config_ok_def)

lemma even_inv_update:
  assumes "even_inv ctx v" "r \<le> nr ctx" "even r" "length t = 8" "length d = 8"
  shows "even_inv ctx (v\<lparr>ev_round := r, ev_tmv := t, ev_initial_data := d\<rparr>)"
    and "even_inv ctx (v\<lparr>ev_round := r, ev_tmv := t\<rparr>)"
  using assms by (simp_all add: even_inv_def)

lemma iteration_inv:
  assumes inv: "even_inv ctx v" and kt: "length kt = 8" and cfg: "config_ok ctx"
  shows "same_config ctx (ev_ctx (snd (KeyExpandEven_iteration T be kt v))) \<and>
         (\<not> fst (KeyExpandEven_iteration T be kt v) \<longrightarrow>
            even_inv ctx (snd (KeyExpandEven_iteration T be kt v)) \<and>
            ev_round v < ev_round (snd (KeyExpandEven_iteration T be kt v)))"
proof -
  note c = config_ok_facts [OF cfg]
  from inv have f: "nb (ev_ctx v) = nb ctx" "nk (ev_ctx v) = nk ctx" "nr (ev_ctx v) = nr ctx"
    and r: "ev_round v \<le> nr ctx" "even (ev_round v)"
    and len: "length (ev_tmv v) = 8" "length (ev_initial_data v) = 8"
    by (simp_all add: even_inv_def same_config_def)
  define v1 where "v1 = KeyExpandEven_derive T be kt 0 v"
  have inv1: "even_inv ctx v1"
    unfolding v1_def using inv kt c(1) by (rule derive_inv) (simp add: c(1))
  show ?thesis
  proof (cases "nr ctx = ev_round v")
    case True
    with inv1 show ?thesis
      by (simp add: KeyExpandEven_iteration_cases Let_def f v1_def [symmetric] even_inv_def)
  next
    case False
    with r c(2) have r2: "ev_round v + 2 \<le> nr ctx" "even (ev_round v + 2)"
      by presburger+
    show ?thesis
    proof (cases "nk ctx = nb ctx")
      case True
      have "even_inv ctx (v1\<lparr>ev_round := ev_round v + 2, ev_tmv := ShiftLeft (nb ctx) (ev_tmv v),
              ev_initial_data := Rotate (nk ctx) (ev_initial_data v)\<rparr>)"
        using inv1 r2 len by (intro even_inv_update) simp_all
      with True \<open>nr ctx \<noteq> ev_round v\<close> show ?thesis
        by (simp add: KeyExpandEven_iteration_cases Let_def f v1_def [symmetric] even_inv_def)
    next
      case nk: False
      define v2 where "v2 = KeyExpandEven_derive T be kt (nb ctx)
          (v1\<lparr>ev_round := ev_round v + 2, ev_tmv := ShiftLeft (nb ctx) (ev_tmv v)\<rparr>)"
      have "even_inv ctx (v1\<lparr>ev_round := ev_round v + 2, ev_tmv := ShiftLeft (nb ctx) (ev_tmv v)\<rparr>)"
        using inv1 r2 len by (intro even_inv_update) simp_all
      then have inv2: "even_inv ctx v2"
        unfolding v2_def using kt c(1) c(4) [OF nk] by (rule derive_inv)
      show ?thesis
      proof (cases "nr ctx = ev_round v + 2")
        case True
        with inv2 [unfolded v2_def] nk \<open>nr ctx \<noteq> ev_round v\<close> show ?thesis
          by (simp add: KeyExpandEven_iteration_cases Let_def f v1_def [symmetric] even_inv_def)
      next
        case False
        with r r2 c(2) have r4: "ev_round v + 4 \<le> nr ctx" "even (ev_round v + 4)"
          by presburger+
        have "even_inv ctx (v2\<lparr>ev_round := ev_round v + 4,
                ev_tmv := ShiftLeft (nb ctx) (ShiftLeft (nb ctx) (ev_tmv v)),
                ev_initial_data := Rotate (nk ctx) (ev_initial_data v)\<rparr>)"
          using inv2 r4 len by (intro even_inv_update) simp_all
        with False nk \<open>nr ctx \<noteq> ev_round v\<close> show ?thesis
          by (simp add: KeyExpandEven_iteration_cases Let_def f v1_def [symmetric]
              v2_def even_inv_def)
      qed
    qed
  qed
qed

lemma KeyExpandEven_while_returns:
  assumes inv: "even_inv ctx v" and kt: "length kt = 8" and cfg: "config_ok ctx"
  shows "\<exists>v'. KeyExpandEven_while T be kt v = Some v' \<and> same_config ctx (ev_ctx v')"
  using inv
proof (induction "nr ctx - ev_round v" arbitrary: v rule: less_induct)
  case less
  note it = iteration_inv [OF less.prems kt cfg, of T be]
  show ?case
  proof (cases "fst (KeyExpandEven_iteration T be kt v)")
    case True
    with it show ?thesis
      by (subst KeyExpandEven_while.simps) (simp add: Let_def)
  next
    case False
    with it have inv': "even_inv ctx (snd (KeyExpandEven_iteration T be kt v))"
      and lt: "ev_round v < ev_round (snd (KeyExpandEven_iteration T be kt v))"
      by simp_all
    from inv' have "ev_round (snd (KeyExpandEven_iteration T be kt v)) \<le> nr ctx"
      by (simp add: even_inv_def)
    with lt have "nr ctx - ev_round (snd (KeyExpandEven_iteration T be kt v)) < nr ctx - ev_round v"
      by simp
    from less.hyps [OF this inv'] False show ?thesis
      by (subst KeyExpandEven_while.simps) (simp add: Let_def)
  qed
qed

lemma words_to_bytes_bytes_to_words:
  assumes "length bs = 8 * n"
  shows "words_to_bytes (bytes_to_words n bs) = bs"
proof (rule nth_equalityI)
  show "length (words_to_bytes (bytes_to_words n bs)) = length bs"
    using assms by simp
next
  fix k assume "k < length (words_to_bytes (bytes_to_words n bs))"
  then have k: "k < 8 * n" by simp
  then have col: "k div 8 < n" by simp
  have "words_to_bytes (bytes_to_words n bs) ! (k mod 8 + k div 8 * 8)
        = byte_of (k mod 8) (bytes_to_words n bs ! (k div 8))"
    using col by (intro nth_words_to_bytes) simp_all
  also have "\<dots> = bs ! (k mod 8 + k div 8 * 8)"
    using col assms by (intro byte_of_bytes_to_words) simp_all
  finally show "words_to_bytes (bytes_to_words n bs) ! k = bs ! k"
    by simp
qed

lemma bytes_to_words_words_to_bytes: "bytes_to_words (length ws) (words_to_bytes ws) = ws"
proof (rule nth_equalityI)
  show "length (bytes_to_words (length ws) (words_to_bytes ws)) = length ws" by simp
next
  fix j assume "j < length (bytes_to_words (length ws) (words_to_bytes ws))"
  then have j: "j < length ws" by simp
  show "bytes_to_words (length ws) (words_to_bytes ws) ! j = ws ! j"
  proof (rule word_eq_by_bytes)
    fix r :: nat assume r: "r < 8"
    with j show "byte_of r (bytes_to_words (length ws) (words_to_bytes ws) ! j) = byte_of r (ws ! j)"
      by (simp add: byte_of_bytes_to_words nth_words_to_bytes)
  qed
qed

lemma bytes_to_words_append:
  assumes "length xs = 8 * n"
  shows "bytes_to_words n (xs @ ys) = bytes_to_words n xs"
proof -
  have seg: "take 8 (drop (8 * i) (xs @ ys)) = take 8 (drop (8 * i) xs)" if "i < n" for i
    using that assms by simp
  show ?thesis
    unfolding bytes_to_words_def
    by (rule map_cong [OF refl]) (simp add: seg del: drop_append take_append)
qed

lemma RotateLeft_eq:
  assumes n: "0 < n" "n \<le> 8" and len: "length ws = n"
  shows "RotateLeft be n ws = bytes_to_words n (rotate (2 * n + 3) (words_to_bytes ws))"
proof -
  let ?B = "words_to_bytes ws"
  let ?rb = "2 * n + 3"
  let ?bn = "n * 8"
  from n have rb: "?rb < ?bn" by simp
  have lB: "length ?B = ?bn" using len by simp
  define bytes where "bytes = WordsToBytes_Inline be n ws stack_bytes"
  have bytes: "bytes = ?B @ drop (8 * n) stack_bytes"
    using n len by (simp add: bytes_def WordsToBytes_Inline_eq)
  define buffer where "buffer = memcpy stack_bytes 0 bytes ?rb"
  define bytes1 where "bytes1 = memcpy bytes 0 (drop ?rb bytes) (?bn - ?rb)"
  define bytes2 where "bytes2 = memcpy bytes1 (?bn - ?rb) buffer ?rb"
  have b1: "take (?bn - ?rb) bytes1 = drop ?rb ?B"
    using rb lB by (simp add: bytes1_def memcpy_def bytes)
  have l1: "length bytes1 = 64"
    using rb lB n by (simp add: bytes1_def memcpy_def bytes)
  have bf: "take ?rb buffer = take ?rb ?B"
    using rb lB by (simp add: buffer_def memcpy_def bytes)
  have "bytes2 = (drop ?rb ?B @ take ?rb ?B) @ drop ?bn bytes1"
    using rb b1 bf by (simp add: bytes2_def memcpy_def mult.commute)
  also have "drop ?rb ?B @ take ?rb ?B = rotate ?rb ?B"
    using rb lB by (simp add: rotate_drop_take)
  finally have b2: "bytes2 = rotate ?rb ?B @ drop ?bn bytes1" .
  have "RotateLeft be n ws = BytesToWords_Inline be n bytes2 ws"
    by (simp add: RotateLeft_def Let_def bytes_def buffer_def bytes1_def bytes2_def)
  also have "\<dots> = bytes_to_words n bytes2"
    using n len l1 lB by (simp add: BytesToWords_Inline_eq b2)
  also have "\<dots> = bytes_to_words n (rotate ?rb ?B)"
    using lB by (simp add: b2 bytes_to_words_append)
  finally show ?thesis .
qed

lemma RotateLeft_bytes:
  assumes "0 < n" "n \<le> 8" "length ws = n"
  shows "length (RotateLeft be n ws) = n"
    and "words_to_bytes (RotateLeft be n ws) = rotate (2 * n + 3) (words_to_bytes ws)"
  using assms by (simp_all add: RotateLeft_eq words_to_bytes_bytes_to_words)

lemma same_config_trans: "same_config a b \<Longrightarrow> same_config b c \<Longrightarrow> same_config a c"
  by (simp add: same_config_def)

lemma same_config_row:
  "same_config c0 c \<Longrightarrow> j \<le> nr c0 \<Longrightarrow> length (round_keys c ! j) = nb c0"
  by (simp add: same_config_def ctx_ok_def list_all_length)

lemma same_config_rows: "same_config c0 c \<Longrightarrow> length (round_keys c) = nr c0 + 1"
  by (simp add: same_config_def ctx_ok_def)

lemma KeyExpandOdd_loop_props:
  assumes "same_config c0 c" "odd i" "0 < nb c0" "nb c0 \<le> 8"
  shows "same_config c0 (KeyExpandOdd_loop be i c) \<and>
         (\<forall>j. j \<le> nr c0 \<longrightarrow> round_keys (KeyExpandOdd_loop be i c) ! j =
              (if odd j \<and> i \<le> j \<and> j < nr c0
               then RotateLeft be (nb c0) (round_keys c ! (j - 1)) else round_keys c ! j))"
  using assms
proof (induction be i c rule: KeyExpandOdd_loop.induct)
  case (1 be i ctx)
  from "1.prems" have f: "nb ctx = nb c0" "nr ctx = nr c0"
    by (simp_all add: same_config_def)
  show ?case
  proof (cases "i < nr ctx")
    case False
    then have "KeyExpandOdd_loop be i ctx = ctx"
      by (subst KeyExpandOdd_loop.simps) simp
    with False "1.prems" show ?thesis
      by (auto simp add: f)
  next
    case True
    define row where "row = RotateLeft be (nb ctx)
        (memcpy (round_keys ctx ! i) 0 (round_keys ctx ! (i - 1)) (nb ctx))"
    define ctx' where "ctx' = ctx\<lparr>round_keys := (round_keys ctx)[i := row]\<rparr>"
    from True have i: "i \<le> nr c0" "i - 1 \<le> nr c0" by (simp_all add: f)
    have src: "memcpy (round_keys ctx ! i) 0 (round_keys ctx ! (i - 1)) (nb c0)
               = round_keys ctx ! (i - 1)"
      using same_config_row [OF "1.prems"(1) i(1)] same_config_row [OF "1.prems"(1) i(2)]
      by (rule memcpy_whole)
    have row: "row = RotateLeft be (nb c0) (round_keys ctx ! (i - 1))"
      unfolding row_def f by (simp only: src)
    have lrow: "length row = nb c0"
      unfolding row using "1.prems" same_config_row [OF "1.prems"(1) i(2)]
      by (intro RotateLeft_bytes(1)) simp_all
    have sc': "same_config c0 ctx'"
      unfolding ctx'_def using "1.prems"(1) lrow by (rule same_config_round_keys)
    have step: "KeyExpandOdd_loop be i ctx = KeyExpandOdd_loop be (i + 2) ctx'"
      using True by (subst KeyExpandOdd_loop.simps) (simp add: Let_def row_def ctx'_def)
    from "1.prems"(2) have odd2: "odd (i + 2)" by simp
    note IH = "1.IH" [OF True refl refl, folded row_def, folded ctx'_def, OF sc' odd2 "1.prems"(3,4)]
    have rk': "round_keys ctx' = (round_keys ctx)[i := row]"
      by (simp add: ctx'_def)
    have li: "i < length (round_keys ctx)"
      using same_config_rows [OF "1.prems"(1)] i by simp
    have "round_keys (KeyExpandOdd_loop be (i + 2) ctx') ! j =
              (if odd j \<and> i \<le> j \<and> j < nr c0
               then RotateLeft be (nb c0) (round_keys ctx ! (j - 1)) else round_keys ctx ! j)"
      if j: "j \<le> nr c0" for j
    proof -
      from IH j have A: "round_keys (KeyExpandOdd_loop be (i + 2) ctx') ! j =
          (if odd j \<and> i + 2 \<le> j \<and> j < nr c0
           then RotateLeft be (nb c0) (round_keys ctx' ! (j - 1)) else round_keys ctx' ! j)"
        by blast
      show ?thesis
      proof (cases "odd j \<and> i + 2 \<le> j \<and> j < nr c0")
        case True
        then have ne: "i \<noteq> j - 1" by auto
        from True have c: "odd j \<and> i \<le> j \<and> j < nr c0" by simp
        have "round_keys (KeyExpandOdd_loop be (i + 2) ctx') ! j
            = RotateLeft be (nb c0) (round_keys ctx' ! (j - 1))"
          unfolding A by (rule if_P [OF True])
        also have "round_keys ctx' ! (j - 1) = round_keys ctx ! (j - 1)"
          using ne by (simp add: rk')
        finally show ?thesis using c by auto
      next
        case False
        have B: "round_keys (KeyExpandOdd_loop be (i + 2) ctx') ! j = round_keys ctx' ! j"
          unfolding A by (rule if_not_P [OF False])
        show ?thesis
        proof (cases "j = i")
          case True
          with li have "round_keys ctx' ! j = row" by (simp add: rk')
          moreover from True \<open>i < nr ctx\<close> "1.prems"(2) have "odd j \<and> i \<le> j \<and> j < nr c0"
            by (simp add: f)
          ultimately show ?thesis using B True by (auto simp add: row)
        next
          case ne: False
          have "\<not> (odd j \<and> i \<le> j \<and> j < nr c0)"
          proof
            assume a: "odd j \<and> i \<le> j \<and> j < nr c0"
            with ne have "i < j" by simp
            moreover from a "1.prems"(2) have "j \<noteq> i + 1" by auto
            ultimately have "i + 2 \<le> j" by simp
            with a False show False by simp
          qed
          moreover from ne have "round_keys ctx' ! j = round_keys ctx ! j" by (simp add: rk')
          ultimately show ?thesis using B by auto
        qed
      qed
    qed
    with IH show ?thesis by (simp add: step)
  qed
qed

lemma KalynaInit_Some:
  assumes "KalynaInit alloc_ok b k = Some c"
  shows "ctx_ok c" and "config_ok c" and "state c = replicate (nb c) 0"
    and "round_keys c = replicate (nr c + 1) (replicate (nb c) 0)"
proof -
  from assms obtain n m r where cfg: "KalynaInit_config b k = Some (n, m, r)"
    and c: "c = \<lparr>nb = n, nk = m, nr = r, state = replicate n 0,
                  round_keys = replicate (r + 1) (replicate n 0)\<rparr>"
    by (auto simp add: KalynaInit_def split: if_splits option.splits)
  from cfg have t: "(n, m, r) \<in> set [(2, 2, 10), (2, 4, 14), (4, 4, 14), (4, 8, 18), (8, 8, 18)]"
    by (auto simp add: KalynaInit_config_cases split: if_splits)
  then show "config_ok c" by (simp add: config_ok_def c)
  from t show "ctx_ok c" by (auto simp add: ctx_ok_def state_ok_def c list_all_iff)
  show "state c = replicate (nb c) 0" by (simp add: c)
  show "round_keys c = replicate (nr c + 1) (replicate (nb c) 0)" by (simp add: c)
qed

lemma config_ok_same_config: "same_config ctx c \<Longrightarrow> config_ok ctx \<Longrightarrow> config_ok c"
  by (simp add: same_config_def config_ok_def)

lemma KeyExpandEven_returns:
  assumes ok: "ctx_ok ctx" and cfg: "config_ok ctx" and key: "length key = nk ctx"
    and kt: "length kt = 8"
  shows "\<exists>c. KeyExpandEven T be key kt ctx = Some c \<and> same_config ctx c"
proof -
  note c = config_ok_facts [OF cfg]
  let ?v = "\<lparr>ev_round = 0, ev_initial_data = memcpy stack_words 0 key (nk ctx),
             ev_kt_round = stack_words,
             ev_tmv = for_loop 0 (nb ctx) (\<lambda>i tmv. tmv[i := 0x0001000100010001]) stack_words,
             ev_ctx = ctx\<rparr>"
  have "even_inv ctx ?v"
    using ok key c(6) by (simp add: even_inv_def same_config_refl memcpy_def)
  from KeyExpandEven_while_returns [OF this kt cfg, of T be]
  show ?thesis by (auto simp add: KeyExpandEven_def Let_def)
qed

lemma KalynaKeyExpand_returns:
  assumes ok: "ctx_ok ctx" and cfg: "config_ok ctx" and key: "length key = nk ctx"
  shows "\<exists>c. KalynaKeyExpand T be key ctx = Some c \<and> same_config ctx c \<and>
           (\<forall>i. odd i \<and> i < nr ctx \<longrightarrow>
              round_keys c ! i = RotateLeft be (nb ctx) (round_keys c ! (i - 1)))"
proof -
  define c1 where "c1 = fst (KeyExpandKt T be key ctx stack_words)"
  define kt where "kt = snd (KeyExpandKt T be key ctx stack_words)"
  have sc1: "same_config ctx c1"
    unfolding c1_def using ok by (rule KeyExpandKt_same_config)
  have kt: "length kt = 8"
    unfolding kt_def using ok by (rule length_KeyExpandKt) simp
  from sc1 have ok1: "ctx_ok c1" and f1: "nb c1 = nb ctx" "nk c1 = nk ctx" "nr c1 = nr ctx"
    by (simp_all add: same_config_def)
  from sc1 cfg have cfg1: "config_ok c1" by (rule config_ok_same_config)
  from KeyExpandEven_returns [OF ok1 cfg1 _ kt, of key T be] key f1
  obtain c2 where c2: "KeyExpandEven T be key kt c1 = Some c2" and sc2': "same_config c1 c2"
    by auto
  from sc1 sc2' have sc2: "same_config ctx c2" by (rule same_config_trans)
  note c = config_ok_facts [OF cfg]
  from c(8) have nb0: "0 < nb ctx" by auto
  from KeyExpandOdd_loop_props [OF sc2 _ nb0 c(1), of 1 be]
  have sc3: "same_config ctx (KeyExpandOdd be c2)"
    and rows: "\<And>j. j \<le> nr ctx \<Longrightarrow> round_keys (KeyExpandOdd be c2) ! j =
              (if odd j \<and> 1 \<le> j \<and> j < nr ctx
               then RotateLeft be (nb ctx) (round_keys c2 ! (j - 1)) else round_keys c2 ! j)"
    by (simp_all add: KeyExpandOdd_def)
  have res: "KalynaKeyExpand T be key ctx = Some (KeyExpandOdd be c2)"
    by (simp add: KalynaKeyExpand_def Let_def split_def c1_def [symmetric] kt_def [symmetric] c2)
  have "round_keys (KeyExpandOdd be c2) ! i
        = RotateLeft be (nb ctx) (round_keys (KeyExpandOdd be c2) ! (i - 1))"
    if i: "odd i \<and> i < nr ctx" for i
  proof -
    from i have i1: "1 \<le> i" "i \<le> nr ctx" "i - 1 \<le> nr ctx" "even (i - 1)"
      by (auto elim: oddE)
    from rows [OF i1(2)] i i1 have
      "round_keys (KeyExpandOdd be c2) ! i = RotateLeft be (nb ctx) (round_keys c2 ! (i - 1))"
      by simp
    moreover from rows [OF i1(3)] i i1 have
      "round_keys (KeyExpandOdd be c2) ! (i - 1) = round_keys c2 ! (i - 1)"
      by auto
    ultimately show ?thesis by simp
  qed
  with res sc3 show ?thesis by blast
qed

lemma zero_key_word: "zero_keys ctx \<Longrightarrow> r \<le> nr ctx \<Longrightarrow> i < nb ctx \<Longrightarrow> round_keys ctx ! r ! i = 0"
  by (cases r) (simp_all add: zero_keys_def)

lemma record_state_eq: "state c = s \<Longrightarrow> c\<lparr>state := s\<rparr> = c"
  by auto

lemma AddRoundKey_zero:
  assumes "zero_keys ctx" "r \<le> nr ctx" "length (state ctx) = nb ctx"
  shows "AddRoundKey r ctx = ctx"
proof -
  have "state (AddRoundKey r ctx) = state ctx"
    using assms by (intro nth_equalityI) (simp_all add: state_AddRoundKey zero_key_word)
  then show ?thesis by (simp add: AddRoundKey_def)
qed

lemma SubRoundKey_zero:
  assumes "zero_keys ctx" "r \<le> nr ctx" "length (state ctx) = nb ctx"
  shows "SubRoundKey r ctx = ctx"
proof -
  have "state (SubRoundKey r ctx) = state ctx"
    using assms by (intro nth_equalityI) (simp_all add: state_SubRoundKey zero_key_word)
  then show ?thesis by (simp add: SubRoundKey_def)
qed

lemma XorRoundKey_zero:
  assumes "zero_keys ctx" "r \<le> nr ctx" "length (state ctx) = nb ctx"
  shows "XorRoundKey r ctx = ctx"
proof -
  have "state (XorRoundKey r ctx) = state ctx"
    using assms by (intro nth_equalityI) (simp_all add: state_XorRoundKey zero_key_word)
  then show ?thesis by (simp add: XorRoundKey_def)
qed

lemma created_EncipherRound: "created ctx c \<Longrightarrow> created ctx (EncipherRound T be c)"
  by (simp add: created_def zero_keys_def state_ok_EncipherRound)

lemma created_DecipherRound: "created ctx c \<Longrightarrow> created ctx (DecipherRound T be c)"
  by (simp add: created_def zero_keys_def state_ok_DecipherRound)

lemma created_funpow_E: "created ctx c \<Longrightarrow> created ctx ((EncipherRound T be ^^ n) c)"
  by (induction n) (simp_all add: created_EncipherRound)

lemma created_funpow_D: "created ctx c \<Longrightarrow> created ctx ((DecipherRound T be ^^ n) c)"
  by (induction n) (simp_all add: created_DecipherRound)

lemma created_Xor: "created ctx c \<Longrightarrow> r \<le> nr ctx \<Longrightarrow> XorRoundKey r c = c"
  by (simp add: created_def XorRoundKey_zero state_ok_def)

lemma created_Add: "created ctx c \<Longrightarrow> r \<le> nr ctx \<Longrightarrow> AddRoundKey r c = c"
  by (simp add: created_def AddRoundKey_zero state_ok_def)

lemma created_Sub: "created ctx c \<Longrightarrow> r \<le> nr ctx \<Longrightarrow> SubRoundKey r c = c"
  by (simp add: created_def SubRoundKey_zero state_ok_def)

lemma encipher_loop_zero_keys:
  assumes "created ctx c" "n \<le> nr ctx"
  shows "for_loop (Suc 0) (Suc n) (\<lambda>round c. XorRoundKey round (EncipherRound T be c)) c
         = (EncipherRound T be ^^ n) c"
  using assms(2)
proof (induction n)
  case 0
  show ?case by (simp add: for_loop_empty)
next
  case (Suc n)
  then have IH: "for_loop (Suc 0) (Suc n) (\<lambda>round c. XorRoundKey round (EncipherRound T be c)) c
         = (EncipherRound T be ^^ n) c" by simp
  have "created ctx (EncipherRound T be ((EncipherRound T be ^^ n) c))"
    using assms(1) by (intro created_EncipherRound created_funpow_E)
  with Suc.prems show ?case
    by (simp add: for_loop_Suc_from IH created_Xor)
qed

lemma decipher_loop_zero_keys:
  assumes "created ctx c" "n \<le> nr ctx"
  shows "for_down_above_0 n (\<lambda>round c. XorRoundKey round (DecipherRound T be c)) c
         = (DecipherRound T be ^^ n) c"
  using assms
proof (induction n arbitrary: c)
  case 0
  show ?case by simp
next
  case (Suc n)
  from Suc.prems have d: "created ctx (DecipherRound T be c)" by (simp add: created_DecipherRound)
  with Suc.prems have "XorRoundKey (Suc n) (DecipherRound T be c) = DecipherRound T be c"
    by (simp add: created_Xor)
  with Suc.IH [OF d] Suc.prems show ?case
    by (simp add: funpow_swap1)
qed

lemma KalynaEncipher_zero_keys:
  assumes c: "created ctx ctx" and r: "0 < nr ctx" and P: "length P = nb ctx"
  shows "snd (KalynaEncipher T be P ctx) = state ((EncipherRound T be ^^ nr ctx) (ctx\<lparr>state := P\<rparr>))"
proof -
  define c0 where "c0 = ctx\<lparr>state := P\<rparr>"
  from c P have c0: "created ctx c0"
    by (simp add: created_def c0_def zero_keys_def state_ok_def)
  from r obtain n where n: "nr ctx = Suc n" by (cases "nr ctx") simp_all
  have f0: "nr c0 = nr ctx" "nb c0 = nb ctx" by (simp_all add: c0_def)
  have load: "ctx\<lparr>state := memcpy (state ctx) 0 P (nb ctx)\<rparr> = c0"
    using c P by (simp add: c0_def memcpy_whole created_def state_ok_def)
  have loop: "for_loop (Suc 0) (nr ctx) (\<lambda>round c. XorRoundKey round (EncipherRound T be c)) c0
      = (EncipherRound T be ^^ n) c0"
    unfolding n using c0 by (rule encipher_loop_zero_keys) (simp add: n)
  have fin: "created ctx ((EncipherRound T be ^^ nr ctx) c0)"
    using c0 by (rule created_funpow_E)
  then have len: "length (state ((EncipherRound T be ^^ nr ctx) c0)) = nb ctx"
    "nb ((EncipherRound T be ^^ nr ctx) c0) = nb ctx" "nr ((EncipherRound T be ^^ nr ctx) c0) = nr ctx"
    by (simp_all add: created_def state_ok_def)
  have e: "EncipherRound T be ((EncipherRound T be ^^ n) c0) = (EncipherRound T be ^^ nr ctx) c0"
    by (simp add: n)
  have "created ctx ((EncipherRound T be ^^ n) c0)"
    using c0 by (rule created_funpow_E)
  then have mid: "nb ((EncipherRound T be ^^ n) c0) = nb ctx" "nr ((EncipherRound T be ^^ n) c0) = nr ctx"
    by (simp_all add: created_def)
  have "KalynaEncipher T be P ctx
      = ((EncipherRound T be ^^ nr ctx) c0, state ((EncipherRound T be ^^ nr ctx) c0))"
    using created_Add [OF c0, of 0] created_Add [OF fin, of "nr ctx"] len
    by (simp add: KalynaEncipher_def Let_def load f0 loop e mid)
  then show ?thesis by (simp add: c0_def)
qed

lemma KalynaDecipher_zero_keys:
  assumes c: "created ctx ctx" and r: "0 < nr ctx" and C: "length C = nb ctx"
  shows "snd (KalynaDecipher T be C ctx) = state ((DecipherRound T be ^^ nr ctx) (ctx\<lparr>state := C\<rparr>))"
proof -
  define c0 where "c0 = ctx\<lparr>state := C\<rparr>"
  from c C have c0: "created ctx c0"
    by (simp add: created_def c0_def zero_keys_def state_ok_def)
  from r obtain n where n: "nr ctx = Suc n" by (cases "nr ctx") simp_all
  have f0: "nr c0 = nr ctx" "nb c0 = nb ctx" by (simp_all add: c0_def)
  have load: "ctx\<lparr>state := memcpy (state ctx) 0 C (nb ctx)\<rparr> = c0"
    using c C by (simp add: c0_def memcpy_whole created_def state_ok_def)
  have loop: "for_down_above_0 n (\<lambda>round c. XorRoundKey round (DecipherRound T be c)) c0
      = (DecipherRound T be ^^ n) c0"
    using c0 by (rule decipher_loop_zero_keys) (simp add: n)
  have fin: "created ctx ((DecipherRound T be ^^ nr ctx) c0)"
    using c0 by (rule created_funpow_D)
  then have len: "length (state ((DecipherRound T be ^^ nr ctx) c0)) = nb ctx"
    "nb ((DecipherRound T be ^^ nr ctx) c0) = nb ctx" "nr ((DecipherRound T be ^^ nr ctx) c0) = nr ctx"
    by (simp_all add: created_def state_ok_def)
  have e: "DecipherRound T be ((DecipherRound T be ^^ n) c0) = (DecipherRound T be ^^ nr ctx) c0"
    by (simp add: n)
  have "created ctx ((DecipherRound T be ^^ n) c0)"
    using c0 by (rule created_funpow_D)
  then have mid: "nb ((DecipherRound T be ^^ n) c0) = nb ctx" "nr ((DecipherRound T be ^^ n) c0) = nr ctx"
    by (simp_all add: created_def)
  have n1: "nr ctx - Suc 0 = n" by (simp add: n)
  have "KalynaDecipher T be C ctx
      = ((DecipherRound T be ^^ nr ctx) c0, state ((DecipherRound T be ^^ nr ctx) c0))"
    using created_Sub [OF c0, of "nr ctx"] created_Sub [OF fin, of 0] len
    by (simp add: KalynaDecipher_def Let_def load f0 n1 loop e mid)
  then show ?thesis by (simp add: c0_def)
qed

lemma KalynaInit_128_128:
  "KalynaInit (\<lambda>i. True) 128 128
     = Some \<lparr>nb = 2, nk = 2, nr = 10, state = [0, 0], round_keys = replicate 11 [0, 0]\<rparr>"
proof -
  have a: "replicate 2 (0 :: u64) = [0, 0]" by (simp add: numeral_2_eq_2)
  have "(11 :: nat) = Suc 10" by simp
  then have b: "replicate 11 x = x # replicate 10 x" for x :: "u64 list"
    by (simp only: replicate_Suc)
  show ?thesis
    by (simp add: KalynaInit_valid KalynaInit_config_cases a b)
qed

lemma KalynaInit_128_256:
  "KalynaInit (\<lambda>i. True) 128 256
     = Some \<lparr>nb = 2, nk = 4, nr = 14, state = [0, 0], round_keys = replicate 15 [0, 0]\<rparr>"
proof -
  have a: "replicate 2 (0 :: u64) = [0, 0]" by (simp add: numeral_2_eq_2)
  have "(15 :: nat) = Suc 14" by simp
  then have b: "replicate 15 x = x # replicate 14 x" for x :: "u64 list"
    by (simp only: replicate_Suc)
  show ?thesis
    by (simp add: KalynaInit_valid KalynaInit_config_cases a b)
qed

lemma fold_interior_rounds:
  "fold (run_op T be) (concat (map (\<lambda>round. [OpEncipherRound, OpXorRoundKey round]) [i..<n])) ctx
   = for_loop i n (\<lambda>round ctx. XorRoundKey round (EncipherRound T be ctx)) ctx"
proof -
  have "fold (run_op T be) (concat (map (\<lambda>round. [OpEncipherRound, OpXorRoundKey round]) xs)) s
      = fold (\<lambda>round ctx. XorRoundKey round (EncipherRound T be ctx)) xs s" for xs s
    by (induction xs arbitrary: s) simp_all
  then show ?thesis
    by (simp add: for_loop_fold)
qed

lemma KalynaInit_created:
  assumes "KalynaInit alloc_ok b k = Some c"
  shows "created c c" and "0 < nr c"
proof -
  from assms have ok: "ctx_ok c" and cfg: "config_ok c"
    and rk: "round_keys c = replicate (nr c + 1) (replicate (nb c) 0)"
    by (rule KalynaInit_Some)+
  from ok rk show "created c c"
    by (simp add: created_def zero_keys_def ctx_ok_def)
  from cfg show "0 < nr c" by (rule config_ok_facts)
qed

section \<open>Claims\<close>

text \<open>
  C1.  For every supported configuration, on every context with its invariants (fresh
  from \<^verbatim>\<open>KalynaInit\<close> or keyed before), every key of \<open>nk\<close> words and every plaintext
  \<open>P\<close> of \<open>nb\<close> words: \<^verbatim>\<open>KalynaKeyExpand\<close> completes, and on the context it leaves,
  \<^verbatim>\<open>KalynaDecipher\<close> applied to the output of \<^verbatim>\<open>KalynaEncipher\<close> on \<open>P\<close> writes
  back \<open>P\<close>, word for word.  The tables are those of \<^verbatim>\<open>tables.h\<close>, taken with their
  contracts; the byte order of the host is arbitrary.
\<close>

theorem C1_decipher_encipher_round_trip:
  assumes "tables_ok T"
    and "ctx_ok ctx0" and "config_ok ctx0"
    and "length key = nk ctx0"
    and "length P = nb ctx0"
  shows "\<exists>ctx. KalynaKeyExpand T be key ctx0 = Some ctx \<and>
           snd (KalynaDecipher T be (snd (KalynaEncipher T be P ctx))
                  (fst (KalynaEncipher T be P ctx))) = P"
proof -
  note ok = assms(2) and cfg = assms(3)
  from KalynaKeyExpand_returns [OF ok cfg assms(4), of T be]
  obtain ctx where exp: "KalynaKeyExpand T be key ctx0 = Some ctx" and sc: "same_config ctx0 ctx"
    by blast
  from sc have st: "state_ok ctx" and n: "nb ctx = nb ctx0" and r: "nr ctx = nr ctx0"
    by (simp_all add: same_config_def ctx_ok_def)
  from cfg r have r0: "0 < nr ctx" by (simp add: config_ok_facts)
  from assms(5) n have P: "length P = nb ctx" by simp
  from KalynaDecipher_KalynaEncipher [OF assms(1) st r0 P, of be] exp
  show ?thesis by simp
qed

theorem C1_decipher_encipher_round_trip_witness:
  "tables_ok sample_tables \<and>
   KalynaInit (\<lambda>i. True) 128 128
     = Some \<lparr>nb = 2, nk = 2, nr = 10, state = [0, 0], round_keys = replicate 11 [0, 0]\<rparr> \<and>
   (\<exists>ctx. KalynaKeyExpand sample_tables False [0x0706050403020100, 0x0f0e0d0c0b0a0908]
            \<lparr>nb = 2, nk = 2, nr = 10, state = [0, 0], round_keys = replicate 11 [0, 0]\<rparr>
          = Some ctx \<and>
      snd (KalynaDecipher sample_tables False
             (snd (KalynaEncipher sample_tables False
                     [0x1716151413121110, 0x1f1e1d1c1b1a1918] ctx))
             (fst (KalynaEncipher sample_tables False
                     [0x1716151413121110, 0x1f1e1d1c1b1a1918] ctx)))
      = [0x1716151413121110, 0x1f1e1d1c1b1a1918])"
proof -
  note init = KalynaInit_128_128
  from C1_decipher_encipher_round_trip [OF sample_tables_ok KalynaInit_Some(1,2) [OF init],
      of "[0x0706050403020100, 0x0f0e0d0c0b0a0908]" "[0x1716151413121110, 0x1f1e1d1c1b1a1918]" False]
    sample_tables_ok init
  show ?thesis by simp
qed

text \<open>
  C2.  \<^verbatim>\<open>KalynaEncipher\<close> runs exactly the listed sequence on the context whose state
  has been loaded from the plaintext: \<^verbatim>\<open>AddRoundKey(0)\<close>; for each round from 1 to
  \<open>nr - 1\<close>, \<^verbatim>\<open>EncipherRound\<close> followed by \<^verbatim>\<open>XorRoundKey(round)\<close>; one final
  \<^verbatim>\<open>EncipherRound\<close>; \<^verbatim>\<open>AddRoundKey(nr)\<close>; and the \<open>nb\<close> words of the resulting state
  are the ciphertext.
\<close>

theorem C2_KalynaEncipher_sequence:
  "KalynaEncipher T be plaintext ctx =
     (let c = fold (run_op T be) (Encipher_sequence (nr ctx))
                (ctx\<lparr>state := memcpy (state ctx) 0 plaintext (nb ctx)\<rparr>)
      in (c, take (nb c) (state c)))"
proof -
  define c0 where "c0 = ctx\<lparr>state := memcpy (state ctx) 0 plaintext (nb ctx)\<rparr>"
  define c1 where "c1 = AddRoundKey (nr ctx) (EncipherRound T be
          (for_loop 1 (nr ctx) (\<lambda>round ctx. XorRoundKey round (EncipherRound T be ctx))
             (AddRoundKey 0 c0)))"
  have seq: "fold (run_op T be) (Encipher_sequence (nr ctx)) c0 = c1"
    by (simp add: Encipher_sequence_def fold_interior_rounds c1_def)
  have nb1: "nb c1 = nb ctx"
    by (simp add: c1_def c0_def encipher_loop_fields)
  have "KalynaEncipher T be plaintext ctx = (c1, take (nb ctx) (state c1))"
    by (simp add: KalynaEncipher_def Let_def c1_def c0_def encipher_loop_fields)
  then show ?thesis
    unfolding c0_def [symmetric] seq Let_def nb1 .
qed

text \<open>
  C3.  As stated, the claim fails on the rotation of \<^verbatim>\<open>initial_data\<close>: an iteration of
  the loop of \<^verbatim>\<open>KeyExpandEven\<close> that does not leave through a \<^verbatim>\<open>break\<close> ends with
  \<^verbatim>\<open>Rotate(ctx->nk, initial_data)\<close> in every configuration, and \<^verbatim>\<open>Rotate\<close> moves the
  array by one word.  With \<open>nk = nb = 2\<close> the key words \<open>[1, 2]\<close> become \<open>[2, 1]\<close> (they
  are not left alone); with \<open>nb = 2\<close>, \<open>nk = 4\<close> the key words \<open>[1, 2, 3, 4]\<close> become
  \<open>[2, 3, 4, 1]\<close>, not \<open>[3, 4, 1, 2]\<close>, the rotation by \<open>nb\<close> words.
\<close>

theorem C3_rotation_unconditional_by_one_word:
  "\<not> fst (KeyExpandEven_iteration sample_tables False (replicate 8 0)
       \<lparr>ev_round = 0, ev_initial_data = [1, 2, 0, 0, 0, 0, 0, 0], ev_kt_round = replicate 8 0,
        ev_tmv = [0x0001000100010001, 0x0001000100010001, 0, 0, 0, 0, 0, 0],
        ev_ctx = \<lparr>nb = 2, nk = 2, nr = 10, state = [0, 0], round_keys = replicate 11 [0, 0]\<rparr>\<rparr>) \<and>
   take 2 (ev_initial_data (snd (KeyExpandEven_iteration sample_tables False (replicate 8 0)
       \<lparr>ev_round = 0, ev_initial_data = [1, 2, 0, 0, 0, 0, 0, 0], ev_kt_round = replicate 8 0,
        ev_tmv = [0x0001000100010001, 0x0001000100010001, 0, 0, 0, 0, 0, 0],
        ev_ctx = \<lparr>nb = 2, nk = 2, nr = 10, state = [0, 0], round_keys = replicate 11 [0, 0]\<rparr>\<rparr>)))
     = [2, 1] \<and>
   \<not> fst (KeyExpandEven_iteration sample_tables False (replicate 8 0)
       \<lparr>ev_round = 0, ev_initial_data = [1, 2, 3, 4, 0, 0, 0, 0], ev_kt_round = replicate 8 0,
        ev_tmv = [0x0001000100010001, 0x0001000100010001, 0, 0, 0, 0, 0, 0],
        ev_ctx = \<lparr>nb = 2, nk = 4, nr = 14, state = [0, 0], round_keys = replicate 15 [0, 0]\<rparr>\<rparr>) \<and>
   take 4 (ev_initial_data (snd (KeyExpandEven_iteration sample_tables False (replicate 8 0)
       \<lparr>ev_round = 0, ev_initial_data = [1, 2, 3, 4, 0, 0, 0, 0], ev_kt_round = replicate 8 0,
        ev_tmv = [0x0001000100010001, 0x0001000100010001, 0, 0, 0, 0, 0, 0],
        ev_ctx = \<lparr>nb = 2, nk = 4, nr = 14, state = [0, 0], round_keys = replicate 15 [0, 0]\<rparr>\<rparr>)))
     = [2, 3, 4, 1] \<and>
   rotate 2 [1, 2, 3, 4 :: u64] = [3, 4, 1, 2]"
  by (simp add: KeyExpandEven_iteration_cases Let_def take_Rotate numeral_2_eq_2)

text \<open>
  C3, amended.  In the even-round-key stage, every iteration of the loop that does not
  end at a \<^verbatim>\<open>break\<close> finishes, after the last round key it derives, by shifting each of
  the \<open>nb\<close> words of \<^verbatim>\<open>tmv\<close> left by one bit (when \<open>nk \<noteq> nb\<close>, that is the \<^verbatim>\<open>tmv\<close>
  already shifted once before the second key of the iteration) and by rotating the
  \<open>nk\<close> words of \<^verbatim>\<open>initial_data\<close> left by one word (the first word moves to the end),
  in every configuration, also when \<open>nk = nb\<close>.
\<close>

theorem C3_even_stage_advance:
  assumes "\<not> fst (KeyExpandEven_iteration T be kt v)"
    and "0 < nk (ev_ctx v)" and "nk (ev_ctx v) \<le> length (ev_initial_data v)"
    and "nb (ev_ctx v) \<le> length (ev_tmv v)"
  shows "take (nb (ev_ctx v)) (ev_tmv (snd (KeyExpandEven_iteration T be kt v)))
           = map (push_bit 1)
               (take (nb (ev_ctx v))
                  (if nk (ev_ctx v) \<noteq> nb (ev_ctx v) then ShiftLeft (nb (ev_ctx v)) (ev_tmv v)
                   else ev_tmv v)) \<and>
         take (nk (ev_ctx v)) (ev_initial_data (snd (KeyExpandEven_iteration T be kt v)))
           = rotate1 (take (nk (ev_ctx v)) (ev_initial_data v)) \<and>
         drop (nk (ev_ctx v)) (ev_initial_data (snd (KeyExpandEven_iteration T be kt v)))
           = drop (nk (ev_ctx v)) (ev_initial_data v)"
  using assms
  by (simp add: KeyExpandEven_iteration_cases Let_def take_Rotate drop_Rotate take_ShiftLeft
      split: if_splits)

theorem C3_even_stage_advance_witness:
  "\<not> fst (KeyExpandEven_iteration sample_tables False (replicate 8 0)
       \<lparr>ev_round = 0, ev_initial_data = [1, 2, 3, 4, 0, 0, 0, 0], ev_kt_round = replicate 8 0,
        ev_tmv = [1, 1, 1, 1, 0, 0, 0, 0],
        ev_ctx = \<lparr>nb = 4, nk = 4, nr = 14, state = [0, 0, 0, 0],
                  round_keys = replicate 15 [0, 0, 0, 0]\<rparr>\<rparr>) \<and>
   take 4 (ev_tmv (snd (KeyExpandEven_iteration sample_tables False (replicate 8 0)
       \<lparr>ev_round = 0, ev_initial_data = [1, 2, 3, 4, 0, 0, 0, 0], ev_kt_round = replicate 8 0,
        ev_tmv = [1, 1, 1, 1, 0, 0, 0, 0],
        ev_ctx = \<lparr>nb = 4, nk = 4, nr = 14, state = [0, 0, 0, 0],
                  round_keys = replicate 15 [0, 0, 0, 0]\<rparr>\<rparr>)))
     = [2, 2, 2, 2] \<and>
   take 4 (ev_initial_data (snd (KeyExpandEven_iteration sample_tables False (replicate 8 0)
       \<lparr>ev_round = 0, ev_initial_data = [1, 2, 3, 4, 0, 0, 0, 0], ev_kt_round = replicate 8 0,
        ev_tmv = [1, 1, 1, 1, 0, 0, 0, 0],
        ev_ctx = \<lparr>nb = 4, nk = 4, nr = 14, state = [0, 0, 0, 0],
                  round_keys = replicate 15 [0, 0, 0, 0]\<rparr>\<rparr>)))
     = [2, 3, 4, 1]"
proof -
  have brk: "\<not> fst (KeyExpandEven_iteration sample_tables False (replicate 8 0)
       \<lparr>ev_round = 0, ev_initial_data = [1, 2, 3, 4, 0, 0, 0, 0], ev_kt_round = replicate 8 0,
        ev_tmv = [1, 1, 1, 1, 0, 0, 0, 0],
        ev_ctx = \<lparr>nb = 4, nk = 4, nr = 14, state = [0, 0, 0, 0],
                  round_keys = replicate 15 [0, 0, 0, 0]\<rparr>\<rparr>)"
    by (simp add: KeyExpandEven_iteration_cases Let_def)
  from C3_even_stage_advance [OF brk] brk
  show ?thesis by simp
qed



text \<open>
  C5.  \<^verbatim>\<open>KalynaInit(block_size, key_size)\<close> returns \<^verbatim>\<open>NULL\<close> for every pair outside
  the five valid combinations 128/128, 128/256, 256/256, 256/512, 512/512, whatever the
  allocator does; when every allocation succeeds it returns, for each of the five pairs,
  a context whose \<open>nb\<close> and \<open>nk\<close> are the bit sizes divided by 64 and whose \<open>nr\<close> is
  10, 14, 14, 18, 18 respectively.
\<close>

theorem C5_KalynaInit_configurations:
  "((block_size, key_size) \<notin> set valid_configurations \<longrightarrow>
      KalynaInit alloc_ok block_size key_size = None) \<and>
   ((\<forall>i. alloc_ok i) \<longrightarrow>
      map (\<lambda>(b, k). map_option (\<lambda>c. (nb c, nk c, nr c)) (KalynaInit alloc_ok b k))
        valid_configurations
      = map2 (\<lambda>(b, k) r. Some (b div 64, k div 64, r)) valid_configurations valid_rounds)"
proof (intro conjI impI)
  assume "(block_size, key_size) \<notin> set valid_configurations"
  then show "KalynaInit alloc_ok block_size key_size = None"
    by (rule KalynaInit_invalid)
next
  assume "\<forall>i. alloc_ok i"
  then have "\<And>i. alloc_ok i" by simp
  from KalynaInit_valid [of alloc_ok, OF this]
  show "map (\<lambda>(b, k). map_option (\<lambda>c. (nb c, nk c, nr c)) (KalynaInit alloc_ok b k))
          valid_configurations
        = map2 (\<lambda>(b, k) r. Some (b div 64, k div 64, r)) valid_configurations valid_rounds"
    by (simp add: valid_configurations_def valid_rounds_def KalynaInit_config_cases)
qed

theorem C5_KalynaInit_configurations_witness:
  "(192, 128) \<notin> set valid_configurations \<and> KalynaInit (\<lambda>i. True) 192 128 = None \<and>
   map (\<lambda>(b, k). map_option (\<lambda>c. (nb c, nk c, nr c)) (KalynaInit (\<lambda>i. True) b k))
     valid_configurations
   = [Some (2, 2, 10), Some (2, 4, 14), Some (4, 4, 14), Some (4, 8, 18), Some (8, 8, 18)]"
  using C5_KalynaInit_configurations [of 192 128 "\<lambda>i. True"]
  by (simp add: valid_configurations_def valid_rounds_def)

text \<open>
  C6.  \<^verbatim>\<open>EncipherRound\<close> is SubBytes, then ShiftRows, then MixColumns;
  \<^verbatim>\<open>DecipherRound\<close> is InvMixColumns, then InvShiftRows, then InvSubBytes; and for
  tables that satisfy their contracts (each inverse S-box undoes its S-box, the inverse
  matrix times the MDS matrix is the identity) and every state of \<open>nb\<close> words,
  \<open>nb\<close> in {2, 4, 8}, \<^verbatim>\<open>DecipherRound(EncipherRound(S)) == S\<close>, on either byte order
  of the host.
\<close>

theorem C6_round_functions_inverse:
  assumes "tables_ok T" and "state_ok ctx"
  shows "EncipherRound T be ctx = MixColumns T be (ShiftRows be (SubBytes T ctx)) \<and>
         DecipherRound T be ctx = InvSubBytes T (InvShiftRows be (InvMixColumns T be ctx)) \<and>
         DecipherRound T be (EncipherRound T be ctx) = ctx"
  using DecipherRound_EncipherRound [OF assms, of be]
  by (simp add: EncipherRound_def DecipherRound_def)

theorem C6_round_functions_inverse_witness:
  "tables_ok sample_tables \<and>
   state_ok \<lparr>nb = 2, nk = 2, nr = 10, state = [0x1716151413121110, 0x1f1e1d1c1b1a1918],
            round_keys = replicate 11 [0, 0]\<rparr> \<and>
   DecipherRound sample_tables False
     (EncipherRound sample_tables False
        \<lparr>nb = 2, nk = 2, nr = 10, state = [0x1716151413121110, 0x1f1e1d1c1b1a1918],
         round_keys = replicate 11 [0, 0]\<rparr>)
   = \<lparr>nb = 2, nk = 2, nr = 10, state = [0x1716151413121110, 0x1f1e1d1c1b1a1918],
      round_keys = replicate 11 [0, 0]\<rparr>"
proof -
  have ok: "state_ok \<lparr>nb = 2, nk = 2, nr = 10, state = [0x1716151413121110, 0x1f1e1d1c1b1a1918],
            round_keys = replicate 11 [0, 0]\<rparr>"
    by (simp add: state_ok_def)
  from C6_round_functions_inverse [OF sample_tables_ok ok, of False] sample_tables_ok ok
  show ?thesis by blast
qed

text \<open>
  C7.  The 8-iteration double-and-reduce loop of \<^verbatim>\<open>MultiplyGF\<close> over the reduction
  polynomial 0x11D is commutative, has 1 as a neutral element and 0 as an absorbing
  element, for all byte values.
\<close>

theorem C7_MultiplyGF_field_properties:
  "MultiplyGF a b = MultiplyGF b a \<and> MultiplyGF a 1 = a \<and> MultiplyGF a 0 = 0"
  using MultiplyGF_commute [of a b] MultiplyGF_one_right [of a] MultiplyGF_zero_right [of a]
  by simp

text \<open>
  C8.  On a context with its invariants, for every round \<open>round \<le> nr\<close> and every
  word index \<open>i < nb\<close>: \<^verbatim>\<open>AddRoundKey\<close> sets state word \<open>i\<close> to
  \<open>(state[i] + round_keys[round][i]) mod 2^64\<close>, \<^verbatim>\<open>SubRoundKey\<close> sets it to
  \<open>(state[i] - round_keys[round][i]) mod 2^64\<close>, and \<^verbatim>\<open>SubRoundKey(round)\<close> after
  \<^verbatim>\<open>AddRoundKey(round)\<close> restores the context, state included.
\<close>

theorem C8_round_key_wraparound:
  assumes "ctx_ok ctx" and "round \<le> nr ctx" and "i < nb ctx"
  shows "unat (state (AddRoundKey round ctx) ! i)
           = (unat (state ctx ! i) + unat (round_keys ctx ! round ! i)) mod 2 ^ 64 \<and>
         uint (state (SubRoundKey round ctx) ! i)
           = (uint (state ctx ! i) - uint (round_keys ctx ! round ! i)) mod 2 ^ 64 \<and>
         SubRoundKey round (AddRoundKey round ctx) = ctx"
proof -
  from assms(1) have len: "length (state ctx) = nb ctx"
    by (simp add: ctx_ok_def state_ok_def)
  from len assms(3) show ?thesis
    by (simp add: state_AddRoundKey state_SubRoundKey unat_word_ariths uint_word_ariths
        SubRoundKey_AddRoundKey)
qed

theorem C8_round_key_wraparound_witness:
  "ctx_ok \<lparr>nb = 2, nk = 2, nr = 10, state = [0xFFFFFFFFFFFFFFFF, 0],
           round_keys = replicate 11 [1, 1]\<rparr> \<and>
   unat (state (AddRoundKey 0 \<lparr>nb = 2, nk = 2, nr = 10, state = [0xFFFFFFFFFFFFFFFF, 0],
           round_keys = replicate 11 [1, 1]\<rparr>) ! 0) = 0 \<and>
   uint (state (SubRoundKey 10 \<lparr>nb = 2, nk = 2, nr = 10, state = [0, 0xFFFFFFFFFFFFFFFF],
           round_keys = replicate 11 [1, 1]\<rparr>) ! 0) = 2 ^ 64 - 1"
proof -
  have ok: "ctx_ok \<lparr>nb = 2, nk = 2, nr = 10, state = [a, b], round_keys = replicate 11 [1, 1]\<rparr>"
    for a b
    by (simp add: ctx_ok_def state_ok_def list_all_iff)
  from C8_round_key_wraparound [OF ok [of "0xFFFFFFFFFFFFFFFF" 0], of 0 0]
       C8_round_key_wraparound [OF ok [of 0 "0xFFFFFFFFFFFFFFFF"], of 10 0] ok
  show ?thesis by simp
qed

text \<open>
  C9.  As stated, the claim fails: \<^verbatim>\<open>KalynaEncipher\<close> and \<^verbatim>\<open>KalynaDecipher\<close> on a
  context fresh from \<^verbatim>\<open>KalynaInit\<close> (state Created, no key expanded) are not rejected
  with \<open>InvalidState\<close>; they return the block transformed under the all-zero round keys
  of \<^verbatim>\<open>calloc\<close>.  Here for the 128/128 configuration.
\<close>

theorem C9_created_context_not_rejected:
  "KalynaInit (\<lambda>i. True) 128 128
     = Some \<lparr>nb = 2, nk = 2, nr = 10, state = [0, 0], round_keys = replicate 11 [0, 0]\<rparr> \<and>
   Encipher_outcome sample_tables False [0x1716151413121110, 0x1f1e1d1c1b1a1918]
     \<lparr>nb = 2, nk = 2, nr = 10, state = [0, 0], round_keys = replicate 11 [0, 0]\<rparr>
     \<noteq> Inl InvalidState \<and>
   Encipher_outcome sample_tables False [0x1716151413121110, 0x1f1e1d1c1b1a1918]
     \<lparr>nb = 2, nk = 2, nr = 10, state = [0, 0], round_keys = replicate 11 [0, 0]\<rparr>
     = Inr (state ((EncipherRound sample_tables False ^^ 10)
         \<lparr>nb = 2, nk = 2, nr = 10, state = [0x1716151413121110, 0x1f1e1d1c1b1a1918],
          round_keys = replicate 11 [0, 0]\<rparr>)) \<and>
   Decipher_outcome sample_tables False [0x1716151413121110, 0x1f1e1d1c1b1a1918]
     \<lparr>nb = 2, nk = 2, nr = 10, state = [0, 0], round_keys = replicate 11 [0, 0]\<rparr>
     \<noteq> Inl InvalidState \<and>
   Decipher_outcome sample_tables False [0x1716151413121110, 0x1f1e1d1c1b1a1918]
     \<lparr>nb = 2, nk = 2, nr = 10, state = [0, 0], round_keys = replicate 11 [0, 0]\<rparr>
     = Inr (state ((DecipherRound sample_tables False ^^ 10)
         \<lparr>nb = 2, nk = 2, nr = 10, state = [0x1716151413121110, 0x1f1e1d1c1b1a1918],
          round_keys = replicate 11 [0, 0]\<rparr>))"
  using KalynaEncipher_zero_keys [OF KalynaInit_created [OF KalynaInit_128_128],
      of "[0x1716151413121110, 0x1f1e1d1c1b1a1918]" sample_tables False]
    KalynaDecipher_zero_keys [OF KalynaInit_created [OF KalynaInit_128_128],
      of "[0x1716151413121110, 0x1f1e1d1c1b1a1918]" sample_tables False]
  by (simp add: KalynaInit_128_128 Encipher_outcome_def Decipher_outcome_def)

text \<open>
  C9, amended.  On a context in the state Created (returned by \<^verbatim>\<open>KalynaInit\<close>, before
  any \<^verbatim>\<open>KalynaKeyExpand\<close>), \<^verbatim>\<open>KalynaEncipher\<close> and \<^verbatim>\<open>KalynaDecipher\<close> are not
  rejected and report no error: with every round key zero, the output is the input block
  after \<open>nr\<close> applications of \<^verbatim>\<open>EncipherRound\<close>, respectively \<^verbatim>\<open>DecipherRound\<close>.
\<close>

theorem C9_created_context_zero_keys:
  assumes "KalynaInit alloc_ok block_size key_size = Some ctx" and "length X = nb ctx"
  shows "Encipher_outcome T be X ctx
           = Inr (state ((EncipherRound T be ^^ nr ctx) (ctx\<lparr>state := X\<rparr>))) \<and>
         Decipher_outcome T be X ctx
           = Inr (state ((DecipherRound T be ^^ nr ctx) (ctx\<lparr>state := X\<rparr>)))"
  using KalynaEncipher_zero_keys [OF KalynaInit_created [OF assms(1)] assms(2), of T be]
    KalynaDecipher_zero_keys [OF KalynaInit_created [OF assms(1)] assms(2), of T be]
  by (simp add: Encipher_outcome_def Decipher_outcome_def)

theorem C9_created_context_zero_keys_witness:
  "KalynaInit (\<lambda>i. True) 128 256
     = Some \<lparr>nb = 2, nk = 4, nr = 14, state = [0, 0], round_keys = replicate 15 [0, 0]\<rparr> \<and>
   Encipher_outcome sample_tables True [1, 2]
     \<lparr>nb = 2, nk = 4, nr = 14, state = [0, 0], round_keys = replicate 15 [0, 0]\<rparr>
   = Inr (state ((EncipherRound sample_tables True ^^ 14)
       \<lparr>nb = 2, nk = 4, nr = 14, state = [1, 2], round_keys = replicate 15 [0, 0]\<rparr>)) \<and>
   Decipher_outcome sample_tables True [1, 2]
     \<lparr>nb = 2, nk = 4, nr = 14, state = [0, 0], round_keys = replicate 15 [0, 0]\<rparr>
   = Inr (state ((DecipherRound sample_tables True ^^ 14)
       \<lparr>nb = 2, nk = 4, nr = 14, state = [1, 2], round_keys = replicate 15 [0, 0]\<rparr>))"
  using C9_created_context_zero_keys [OF KalynaInit_128_256, of "[1, 2]" sample_tables True]
    KalynaInit_128_256
  by simp

text \<open>
  C10.  For a fixed configuration and fixed round keys, the result of
  \<^verbatim>\<open>KalynaEncipher\<close> (the output buffer, and the context it leaves) is the same
  whatever the \<open>nb\<close> words of the context's state buffer held before the call, since
  the first step overwrites all of them with the input; the same holds for
  \<^verbatim>\<open>KalynaDecipher\<close>.
\<close>

theorem C10_output_independent_of_prior_state:
  assumes "length s1 = nb ctx" and "length s2 = nb ctx" and "length X = nb ctx"
  shows "KalynaEncipher T be X (ctx\<lparr>state := s1\<rparr>) = KalynaEncipher T be X (ctx\<lparr>state := s2\<rparr>) \<and>
         KalynaDecipher T be X (ctx\<lparr>state := s1\<rparr>) = KalynaDecipher T be X (ctx\<lparr>state := s2\<rparr>)"
  using assms by (simp add: KalynaEncipher_def KalynaDecipher_def memcpy_whole)

theorem C10_output_independent_of_prior_state_witness:
  "KalynaEncipher sample_tables False [1, 2]
     \<lparr>nb = 2, nk = 2, nr = 10, state = [3, 4], round_keys = replicate 11 [5, 6]\<rparr>
   = KalynaEncipher sample_tables False [1, 2]
     \<lparr>nb = 2, nk = 2, nr = 10, state = [7, 8], round_keys = replicate 11 [5, 6]\<rparr> \<and>
   KalynaDecipher sample_tables False [1, 2]
     \<lparr>nb = 2, nk = 2, nr = 10, state = [3, 4], round_keys = replicate 11 [5, 6]\<rparr>
   = KalynaDecipher sample_tables False [1, 2]
     \<lparr>nb = 2, nk = 2, nr = 10, state = [7, 8], round_keys = replicate 11 [5, 6]\<rparr>"
  using C10_output_independent_of_prior_state [of "[3, 4]"
      "\<lparr>nb = 2, nk = 2, nr = 10, state = [], round_keys = replicate 11 [5, 6]\<rparr>"
      "[7, 8]" "[1, 2]" sample_tables False]
  by simp

end
